theory Spec2Isabelle
  imports Main "HOL-Library.AList"
begin

section \<open>The file system the dispatcher works on\<close>

text \<open>
  The snapshot test dispatcher (\<^verbatim>\<open>processContent\<close> and its helpers) reads and writes a
  directory tree through Node's synchronous \<^verbatim>\<open>fs\<close> calls. A path is the list of its
  components (the source builds paths with template strings, one component after a
  \<^verbatim>\<open>/\<close>), a directory is the list of its entries in \<^verbatim>\<open>readdirSync\<close> order, and there
  are only regular files and directories. Every call that throws in Node returns
  \<open>Inl\<close> of the error here.
\<close>

type_synonym path = "string list"

datatype node = File string | Dir "(string \<times> node) list"

datatype errno = ENOENT | ENOTDIR | EISDIR | EEXIST | ENOTEMPTY

text \<open>
  The assertions of the source, one constructor per \<^verbatim>\<open>assert\<close> call:
  lines 57 and 60 (\<^verbatim>\<open>this.deferred === undefined\<close>), 61 (\<^verbatim>\<open>this.limit >= 0\<close>),
  67 (\<^verbatim>\<open>this.limit === 0\<close>), 204 (the directory exists), 207 (the version file exists)
  and 220 (\<^verbatim>\<open>!subNode.isDirectory()\<close>).
\<close>

datatype assertion =
    DeferredUndefined
  | LimitNonNegative
  | LimitIsZero
  | DirectoryExists path
  | VersionFileExists path
  | NotADirectory

text \<open>
  The values the dispatcher throws or rejects with: a failed assertion, an error of an
  \<^verbatim>\<open>fs\<close> call, the \<^verbatim>\<open>SyntaxError\<close> of \<^verbatim>\<open>JSON.parse\<close>, the error of line 110 (the replay
  tool returned errors), the errors of lines 260 and 262 (the worker sent a message; the
  flag says whether the hint of Compare mode was appended), the error of line 272 (the
  worker's exit code) and any other value thrown by the replay tool or raised by the
  worker's \<^verbatim>\<open>error\<close> event.
\<close>

datatype error =
    AssertionError assertion
  | SystemError errno
  | SyntaxError
  | ReplayErrors "string list"
  | WorkerMessage string bool
  | WorkerExit int
  | Thrown string

record Dirent =
  name :: string
  isDirectory :: bool

fun lookup :: "node \<Rightarrow> path \<Rightarrow> node option" where
  "lookup n [] = Some n"
| "lookup (File c) (x # p) = None"
| "lookup (Dir es) (x # p) = (case map_of es x of None \<Rightarrow> None | Some c \<Rightarrow> lookup c p)"

fun isDir :: "node \<Rightarrow> bool" where
  "isDir (Dir es) = True"
| "isDir (File c) = False"

definition existsSync :: "node \<Rightarrow> path \<Rightarrow> bool" where
  "existsSync fs p = (lookup fs p \<noteq> None)"

definition dirents :: "(string \<times> node) list \<Rightarrow> Dirent list" where
  "dirents es = map (\<lambda>(n, c). \<lparr>name = n, isDirectory = isDir c\<rparr>) es"

definition readdirSync :: "node \<Rightarrow> path \<Rightarrow> error + Dirent list" where
  "readdirSync fs p =
     (case lookup fs p of
        None \<Rightarrow> Inl (SystemError ENOENT)
      | Some (File c) \<Rightarrow> Inl (SystemError ENOTDIR)
      | Some (Dir es) \<Rightarrow> Inr (dirents es))"

definition readFileSync :: "node \<Rightarrow> path \<Rightarrow> error + string" where
  "readFileSync fs p =
     (case lookup fs p of
        None \<Rightarrow> Inl (SystemError ENOENT)
      | Some (Dir es) \<Rightarrow> Inl (SystemError EISDIR)
      | Some (File c) \<Rightarrow> Inr c)"

text \<open>
  \<open>putNode p new fs\<close> stores \<open>new\<close> under the path \<open>p\<close>: the parent directory has to
  exist; an entry of the same name is replaced where it stands, a new name is added at
  the end of the directory. Where \<^verbatim>\<open>readdirSync\<close> lists a new entry is not fixed by Node;
  the theorems about the claims speak of the entries as a set, or of one listing in the
  order it was read.
\<close>

fun putNode :: "path \<Rightarrow> node \<Rightarrow> node \<Rightarrow> error + node" where
  "putNode [] new fs = Inr new"
| "putNode (x # p) new (File c) = Inl (SystemError ENOTDIR)"
| "putNode [x] new (Dir es) = Inr (Dir (AList.update x new es))"
| "putNode (x # p) new (Dir es) =
     (case map_of es x of
        None \<Rightarrow> Inl (SystemError ENOENT)
      | Some c \<Rightarrow>
          (case putNode p new c of
             Inl e \<Rightarrow> Inl e
           | Inr c' \<Rightarrow> Inr (Dir (AList.update x c' es))))"

fun removeNode :: "path \<Rightarrow> node \<Rightarrow> error + node" where
  "removeNode [] fs = Inl (SystemError ENOENT)"
| "removeNode (x # p) (File c) = Inl (SystemError ENOTDIR)"
| "removeNode [x] (Dir es) = Inr (Dir (AList.delete x es))"
| "removeNode (x # p) (Dir es) =
     (case map_of es x of
        None \<Rightarrow> Inl (SystemError ENOENT)
      | Some c \<Rightarrow>
          (case removeNode p c of
             Inl e \<Rightarrow> Inl e
           | Inr c' \<Rightarrow> Inr (Dir (AList.update x c' es))))"

definition writeFileSync :: "node \<Rightarrow> path \<Rightarrow> string \<Rightarrow> error + node" where
  "writeFileSync fs p c =
     (case lookup fs p of
        Some (Dir es) \<Rightarrow> Inl (SystemError EISDIR)
      | _ \<Rightarrow> putNode p (File c) fs)"

definition copyFileSync :: "node \<Rightarrow> path \<Rightarrow> path \<Rightarrow> error + node" where
  "copyFileSync fs src dst =
     (case readFileSync fs src of
        Inl e \<Rightarrow> Inl e
      | Inr c \<Rightarrow> writeFileSync fs dst c)"

text \<open>\<^verbatim>\<open>fs.mkdirSync(p, { recursive: true })\<close> for a path \<open>p\<close> given by its components:
  creates the missing directories along \<open>p\<close> and accepts a directory that is already
  there.\<close>

fun mkdirSync :: "path \<Rightarrow> node \<Rightarrow> error + node" where
  "mkdirSync [] (Dir es) = Inr (Dir es)"
| "mkdirSync [] (File c) = Inl (SystemError EEXIST)"
| "mkdirSync (x # p) (File c) = Inl (SystemError ENOTDIR)"
| "mkdirSync (x # p) (Dir es) =
     (case mkdirSync p (case map_of es x of None \<Rightarrow> Dir [] | Some c \<Rightarrow> c) of
        Inl e \<Rightarrow> Inl e
      | Inr c' \<Rightarrow> Inr (Dir (AList.update x c' es)))"

text \<open>
  A path that the source builds from data is a string, and the file system reads it
  component by component: \<open>splitPath\<close> cuts a string at every \<^verbatim>\<open>/\<close>. In a path an empty
  component and \<^verbatim>\<open>.\<close> stay in the directory reached so far and \<^verbatim>\<open>..\<close> goes to its parent
  (the parent of the root is the root; there are no links).

  \<open>mkdirPath dir xs fs\<close> is \<^verbatim>\<open>fs.mkdirSync(p, { recursive: true })\<close> for the path \<open>p\<close> made
  of the existing directory \<open>dir\<close> followed by the components \<open>xs\<close> as they stand in
  the string: every directory on the way that is missing is created, a regular file on
  the way is an error (\<^verbatim>\<open>EEXIST\<close> as the last component, \<^verbatim>\<open>ENOTDIR\<close> before), and what
  was created before the error stays. The result is the directory that \<open>p\<close> names, as
  the list of its components from the root, with the file system.
\<close>

fun splitPath :: "string \<Rightarrow> string list" where
  "splitPath [] = [[]]"
| "splitPath (c # cs) =
     (if c = CHR ''/'' then [] # splitPath cs
      else (case splitPath cs of [] \<Rightarrow> [[c]] | x # xs \<Rightarrow> (c # x) # xs))"

fun mkdirPath :: "path \<Rightarrow> string list \<Rightarrow> node \<Rightarrow> error \<times> node + path \<times> node" where
  "mkdirPath dir [] fs = Inr (dir, fs)"
| "mkdirPath dir (x # xs) fs =
     (if x = [] \<or> x = ''.'' then mkdirPath dir xs fs
      else if x = ''..'' then mkdirPath (butlast dir) xs fs
      else (case lookup fs (dir @ [x]) of
              Some (File c) \<Rightarrow> Inl (SystemError (if xs = [] then EEXIST else ENOTDIR), fs)
            | _ \<Rightarrow>
                (case mkdirSync (dir @ [x]) fs of
                   Inl e \<Rightarrow> Inl (e, fs)
                 | Inr fs' \<Rightarrow> mkdirPath (dir @ [x]) xs fs')))"

definition unlinkSync :: "node \<Rightarrow> path \<Rightarrow> error + node" where
  "unlinkSync fs p =
     (case lookup fs p of
        None \<Rightarrow> Inl (SystemError ENOENT)
      | Some (Dir es) \<Rightarrow> Inl (SystemError EISDIR)
      | Some (File c) \<Rightarrow> removeNode p fs)"

definition rmdirSync :: "node \<Rightarrow> path \<Rightarrow> error + node" where
  "rmdirSync fs p =
     (case lookup fs p of
        None \<Rightarrow> Inl (SystemError ENOENT)
      | Some (File c) \<Rightarrow> Inl (SystemError ENOTDIR)
      | Some (Dir []) \<Rightarrow> removeNode p fs
      | Some (Dir (e # es)) \<Rightarrow> Inl (SystemError ENOTEMPTY))"


section \<open>The dispatcher's data\<close>

datatype Mode = Write | Compare | Stress | Validate

record IWorkerArgs =
  folder :: path
  mode :: Mode
  snapFreq :: nat
  initializeFromSnapshotsDir :: "path option"

text \<open>The fields of \<^verbatim>\<open>ReplayArgs\<close> that \<^verbatim>\<open>processOneFile\<close> sets (lines 83 to 93);
  \<open>write\<close> is a keyword of Isabelle, hence the prime.\<close>

record ReplayArgs =
  verbose :: bool
  inDirName :: path
  outDirName :: path
  replaySnapFreq :: nat
  write' :: bool
  compare :: bool
  expandFiles :: bool
  replayInitializeFromSnapshotsDir :: "path option"

text \<open>
  What the dispatcher takes from outside this file: the two locations of line 30,
  \<^verbatim>\<open>pkgVersion\<close> of \<^verbatim>\<open>./packageVersion\<close>, whether \<^verbatim>\<open>import("worker_threads")\<close> succeeds
  (line 243), the replay tool (\<open>Go args fs\<close> is the result of
  \<^verbatim>\<open>new ReplayTool(args).Go()\<close>, the list of errors or the value thrown, with the file
  system it leaves), and the two JSON calls on the version file:
  \<open>parseSnapshotVersion text\<close> is the string that \<^verbatim>\<open>JSON.parse(text).snapshotVersion\<close>
  gives in the template of line 216 (any string), or \<open>None\<close> when
  \<^verbatim>\<open>JSON.parse\<close> throws its \<^verbatim>\<open>SyntaxError\<close>, and
  \<open>stringifySnapshotVersion v\<close> is \<^verbatim>\<open>JSON.stringify({ snapshotVersion: v })\<close>.
\<close>

record config =
  fileLocation :: path
  pkgVersion :: string
  worker_threads :: bool
  Go :: "ReplayArgs \<Rightarrow> node \<Rightarrow> (error + string list) \<times> node"
  parseSnapshotVersion :: "string \<Rightarrow> string option"
  stringifySnapshotVersion :: "string \<Rightarrow> string"

definition numberOfThreads :: int where
  "numberOfThreads = 4"

datatype promise = Pending | Fulfilled | Rejected error

text \<open>A job of the limiter: the \<^verbatim>\<open>workerData\<close> its worker thread was created with
  (line 254) and the state of the promise \<^verbatim>\<open>p\<close> of line 64.\<close>

record job =
  workerData :: IWorkerArgs
  promise :: promise

text \<open>The events of a worker thread that the handlers of lines 256 to 275 listen to.\<close>

datatype wevent = OnMessage string | OnError string | OnExit int

datatype logline = CantLocate path | UnhandledError IWorkerArgs error

text \<open>
  The dispatcher is one fiber of \<^verbatim>\<open>async\<close> functions. Where it is suspended at an
  \<^verbatim>\<open>await\<close>, what it will do when resumed is the stack of frames below, innermost
  first: the \<^verbatim>\<open>for\<close> loop of \<^verbatim>\<open>processContent\<close> (line 121) with the entries still to
  visit; the loop of \<^verbatim>\<open>processNodeForValidate\<close> (line 181) with its \<^verbatim>\<open>data\<close> object, the
  \<^verbatim>\<open>src_snapshots\<close> folder and the entries still to visit; \<^verbatim>\<open>processNode\<close> suspended at
  line 243; \<^verbatim>\<open>addWork\<close> suspended at line 59 on the \<^verbatim>\<open>Deferred\<close> with the given
  index; and the rest of \<^verbatim>\<open>processNodeForWrite\<close> after line 225, which writes the
  version file of the given path.
\<close>

datatype frame =
    ForNodes "Dirent list"
  | ForVersions IWorkerArgs path "Dirent list"
  | ProcessNode IWorkerArgs
  | AwaitDeferred IWorkerArgs nat
  | WriteVersion path

text \<open>
  The state of a run of \<^verbatim>\<open>processContent\<close>: the files on disk; the limiter's fields
  \<^verbatim>\<open>limit\<close>, \<^verbatim>\<open>deferred\<close> and \<^verbatim>\<open>promises\<close>; the \<^verbatim>\<open>Deferred\<close> objects created so far,
  each with the number of times \<^verbatim>\<open>resolve()\<close> was called on it (\<open>deferred\<close> is
  \<^verbatim>\<open>undefined\<close> or points to one of them); the dispatcher's stack; whether
  \<^verbatim>\<open>waitAll\<close> was called and the state of the promise that \<^verbatim>\<open>processContent\<close> returned;
  the lines of \<^verbatim>\<open>console.error\<close>; and, kept for the proofs only, the arguments of
  every job in the order the jobs were started (a worker thread created or
  \<^verbatim>\<open>processOneFile\<close> called inline).
\<close>

record state =
  files :: node
  limit :: int
  deferred :: "nat option"
  deferreds :: "nat list"
  promises :: "job list"
  stack :: "frame list"
  waitAllCalled :: bool
  result :: promise
  console :: "logline list"
  started :: "IWorkerArgs list"


section \<open>The synchronous helpers\<close>

text \<open>
  The helpers below change the file system in several steps, and a step may throw
  after others were done. Their result is the file system they leave, and when they
  throw, the error together with the file system at that moment: what was deleted,
  created or copied before stays so.
\<close>

text \<open>The loop of lines 295 to 300 of \<^verbatim>\<open>cleanFailedSnapshots\<close>.\<close>

fun unlinkFiles :: "path \<Rightarrow> Dirent list \<Rightarrow> node \<Rightarrow> error \<times> node + node" where
  "unlinkFiles dir [] fs = Inr fs"
| "unlinkFiles dir (n # ns) fs =
     (if isDirectory n then unlinkFiles dir ns fs
      else (case unlinkSync fs (dir @ [name n]) of
              Inl e \<Rightarrow> Inl (e, fs)
            | Inr fs' \<Rightarrow> unlinkFiles dir ns fs'))"

definition cleanFailedSnapshots :: "node \<Rightarrow> path \<Rightarrow> error \<times> node + node" where
  "cleanFailedSnapshots fs dir =
     (let currentSnapshotsDir = dir @ [''current_snapshots''] in
      if \<not> existsSync fs currentSnapshotsDir then Inr fs
      else
        let failedSnapshotsDir = currentSnapshotsDir @ [''FailedSnapshots''] in
        if \<not> existsSync fs failedSnapshotsDir then Inr fs
        else
          (case readdirSync fs failedSnapshotsDir of
             Inl e \<Rightarrow> Inl (e, fs)
           | Inr nodes \<Rightarrow>
               (case unlinkFiles failedSnapshotsDir nodes fs of
                  Inl thrown \<Rightarrow> Inl thrown
                | Inr fs' \<Rightarrow>
                    (case rmdirSync fs' failedSnapshotsDir of
                       Inl e \<Rightarrow> Inl (e, fs')
                     | Inr fs'' \<Rightarrow> Inr fs''))))"

text \<open>The loop of lines 219 to 222 of \<^verbatim>\<open>processNodeForWrite\<close>.\<close>

fun copyFiles :: "path \<Rightarrow> path \<Rightarrow> Dirent list \<Rightarrow> node \<Rightarrow> error \<times> node + node" where
  "copyFiles currentSnapshotsDir newSrcDir [] fs = Inr fs"
| "copyFiles currentSnapshotsDir newSrcDir (subNode # subNodes) fs =
     (if isDirectory subNode then Inl (AssertionError NotADirectory, fs)
      else (case copyFileSync fs (currentSnapshotsDir @ [name subNode])
                   (newSrcDir @ [name subNode]) of
              Inl e \<Rightarrow> Inl (e, fs)
            | Inr fs' \<Rightarrow> copyFiles currentSnapshotsDir newSrcDir subNodes fs'))"

text \<open>
  Lines 203 to 222 of \<^verbatim>\<open>processNodeForWrite\<close>, all synchronous: the two assertions, the
  version read from the version file, the archive folder created and the current
  snapshots copied into it. Line 216 splices the version into the path string
  \<^verbatim>\<open>${data.folder}/src_snapshots/${version}\<close>: whatever the version is, line 217 creates
  the directory that this string names, and \<open>newSrcDir\<close> below is that directory, so that
  \<^verbatim>\<open>${newSrcDir}/${subNode.name}\<close> of line 221 is its entry of that name. The result is
  the name of the version file, which line 228 writes after the \<^verbatim>\<open>await\<close> of line 225,
  and the file system.
\<close>

definition moveCurrentSnapshots ::
  "config \<Rightarrow> IWorkerArgs \<Rightarrow> node \<Rightarrow> error \<times> node + path \<times> node" where
  "moveCurrentSnapshots cfg data fs =
     (let currentSnapshotsDir = folder data @ [''current_snapshots''] in
      if \<not> existsSync fs currentSnapshotsDir
      then Inl (AssertionError (DirectoryExists currentSnapshotsDir), fs)
      else
        let versionFileName = currentSnapshotsDir @ [''snapshotVersion.json''] in
        if \<not> existsSync fs versionFileName
        then Inl (AssertionError (VersionFileExists versionFileName), fs)
        else
          (case readFileSync fs versionFileName of
             Inl e \<Rightarrow> Inl (e, fs)
           | Inr content \<Rightarrow>
          (case parseSnapshotVersion cfg content of
             None \<Rightarrow> Inl (SyntaxError, fs)
           | Some version \<Rightarrow>
          (case mkdirPath (folder data) (''src_snapshots'' # splitPath version) fs of
             Inl thrown \<Rightarrow> Inl thrown
           | Inr (newSrcDir, fs1) \<Rightarrow>
          (case readdirSync fs1 currentSnapshotsDir of
             Inl e \<Rightarrow> Inl (e, fs1)
           | Inr subNodes \<Rightarrow>
          (case copyFiles currentSnapshotsDir newSrcDir subNodes fs1 of
             Inl thrown \<Rightarrow> Inl thrown
           | Inr fs2 \<Rightarrow> Inr (versionFileName, fs2)))))))"

section \<open>The limiter and the dispatcher, one step at a time\<close>

text \<open>An exception leaves every \<^verbatim>\<open>async\<close> function of the dispatcher (none of them
  catches): the promise of \<^verbatim>\<open>processContent\<close> is rejected and nothing of the dispatcher
  is left to run.\<close>

definition reject :: "error \<Rightarrow> state \<Rightarrow> state" where
  "reject e s = s\<lparr>stack := [], result := Rejected e\<rparr>"

text \<open>
  Lines 64 and 72 of \<^verbatim>\<open>addWork\<close> with the \<^verbatim>\<open>worker\<close> of lines 253 and 254: the worker
  thread is created with a copy of \<^verbatim>\<open>workerData\<close> and the promise is pushed. The
  \<^verbatim>\<open>data\<close> object of the frame is the one the source passes by reference; nothing
  changes it between the call of \<^verbatim>\<open>processNode\<close> and this point, where the worker
  copies it.
\<close>

definition startWorker :: "IWorkerArgs \<Rightarrow> state \<Rightarrow> state" where
  "startWorker wd s =
     s\<lparr>promises := promises s @ [\<lparr>workerData = wd, promise = Pending\<rparr>],
       started := started s @ [wd]\<rparr>"

text \<open>\<^verbatim>\<open>addWork\<close> up to its \<^verbatim>\<open>await\<close> (lines 55 to 59), or to its end when there is a
  free slot.\<close>

definition addWork :: "IWorkerArgs \<Rightarrow> state \<Rightarrow> state" where
  "addWork wd s =
     (let s1 = s\<lparr>limit := limit s - 1\<rparr> in
      if limit s1 < 0 then
        (if deferred s1 \<noteq> None then reject (AssertionError DeferredUndefined) s1
         else
           let d = length (deferreds s1) in
           s1\<lparr>deferreds := deferreds s1 @ [0], deferred := Some d,
              stack := AwaitDeferred wd d # stack s1\<rparr>)
      else startWorker wd s1)"

text \<open>\<^verbatim>\<open>addWork\<close> after its \<^verbatim>\<open>await\<close> (lines 60 to 72), once the \<^verbatim>\<open>Deferred\<close> was
  resolved.\<close>

definition addWorkResumed :: "IWorkerArgs \<Rightarrow> state \<Rightarrow> state" where
  "addWorkResumed wd s =
     (if deferred s \<noteq> None then reject (AssertionError DeferredUndefined) s
      else if \<not> limit s \<ge> 0 then reject (AssertionError LimitNonNegative) s
      else startWorker wd s)"

text \<open>
  The callback of lines 64 to 71, run when the worker's promise is fulfilled: the new
  state and the state of \<^verbatim>\<open>p\<close>, which is rejected when the assertion of line 67 fails.
\<close>

definition thenCallback :: "state \<Rightarrow> state \<times> promise" where
  "thenCallback s =
     (let s1 = s\<lparr>limit := limit s + 1\<rparr> in
      case deferred s1 of
        None \<Rightarrow> (s1, Fulfilled)
      | Some d \<Rightarrow>
          if limit s1 = 0
          then (s1\<lparr>deferreds := (deferreds s1)[d := Suc (deferreds s1 ! d)],
                   deferred := None\<rparr>, Fulfilled)
          else (s1, Rejected (AssertionError LimitIsZero)))"

text \<open>
  \<^verbatim>\<open>processOneFile\<close> (lines 80 to 116), run inline. The listener of lines 97 to 102
  belongs to the process and is not modelled.
\<close>

definition processOneFile :: "config \<Rightarrow> IWorkerArgs \<Rightarrow> state \<Rightarrow> (error + unit) \<times> state" where
  "processOneFile cfg args s =
     (let replayArgs =
            \<lparr>verbose = False,
             inDirName = folder args,
             outDirName = folder args @ [''current_snapshots''],
             replaySnapFreq = snapFreq args,
             write' = (mode args = Write),
             compare = (mode args = Compare),
             expandFiles = (mode args = Stress),
             replayInitializeFromSnapshotsDir = initializeFromSnapshotsDir args\<rparr>;
          (errors, fs') = Go cfg replayArgs (files s);
          s1 = s\<lparr>files := fs', started := started s @ [args]\<rparr>
      in case errors of
           Inl e \<Rightarrow> (Inl e, s1\<lparr>console := console s1 @ [UnhandledError args e]\<rparr>)
         | Inr errs \<Rightarrow>
             if errs \<noteq> []
             then (Inl (ReplayErrors errs),
                   s1\<lparr>console := console s1 @ [UnhandledError args (ReplayErrors errs)]\<rparr>)
             else (Inr (), s1))"

text \<open>\<^verbatim>\<open>processNode\<close> from line 248 on.\<close>

definition processNode :: "config \<Rightarrow> bool \<Rightarrow> IWorkerArgs \<Rightarrow> state \<Rightarrow> state" where
  "processNode cfg concurrently data s =
     (if \<not> concurrently \<or> \<not> worker_threads cfg then
        (case processOneFile cfg data s of
           (Inl e, s') \<Rightarrow> reject e s'
         | (Inr u, s') \<Rightarrow> s')
      else addWork data s)"

text \<open>\<^verbatim>\<open>processNodeForValidate\<close> up to its loop (lines 174 to 181).\<close>

definition processNodeForValidate :: "IWorkerArgs \<Rightarrow> state \<Rightarrow> state" where
  "processNodeForValidate data s =
     (let srcSnapshotsFolder = folder data @ [''src_snapshots''] in
      if \<not> existsSync (files s) srcSnapshotsFolder then s
      else (case readdirSync (files s) srcSnapshotsFolder of
              Inl e \<Rightarrow> reject e s
            | Inr nodes \<Rightarrow> s\<lparr>stack := ForVersions data srcSnapshotsFolder nodes # stack s\<rparr>))"

text \<open>\<^verbatim>\<open>processNodeForWrite\<close> up to the call of \<^verbatim>\<open>processNode\<close> in line 225; the write of
  line 228 is left on the stack.\<close>

definition processNodeForWrite :: "config \<Rightarrow> IWorkerArgs \<Rightarrow> state \<Rightarrow> state" where
  "processNodeForWrite cfg data s =
     (case moveCurrentSnapshots cfg data (files s) of
        Inl (e, fs') \<Rightarrow> reject e (s\<lparr>files := fs'\<rparr>)
      | Inr (versionFileName, fs') \<Rightarrow>
          s\<lparr>files := fs', stack := ProcessNode data # WriteVersion versionFileName # stack s\<rparr>)"

text \<open>The body of the loop of \<^verbatim>\<open>processContent\<close> for one entry (lines 122 to 158), up to
  the first \<^verbatim>\<open>await\<close> of the function it calls.\<close>

definition processContentNode :: "config \<Rightarrow> Mode \<Rightarrow> Dirent \<Rightarrow> state \<Rightarrow> state" where
  "processContentNode cfg m node s =
     (if \<not> isDirectory node then s
      else
        let dir = fileLocation cfg @ [name node];
            messages = dir @ [''messages.json'']
        in
        if \<not> existsSync (files s) messages
        then s\<lparr>console := console s @ [CantLocate messages]\<rparr>
        else
          (case cleanFailedSnapshots (files s) dir of
             Inl (e, fs') \<Rightarrow> reject e (s\<lparr>files := fs'\<rparr>)
           | Inr fs' \<Rightarrow>
               let s1 = s\<lparr>files := fs'\<rparr>;
                   freq = (if m = Stress then 50 else 1000);
                   data = \<lparr>folder = dir, mode = m, snapFreq = freq,
                           initializeFromSnapshotsDir = None\<rparr>
               in (case m of
                     Validate \<Rightarrow> processNodeForValidate data s1
                   | Write \<Rightarrow> processNodeForWrite cfg data s1
                   | _ \<Rightarrow> s1\<lparr>stack := ProcessNode data # stack s1\<rparr>)))"

text \<open>
  \<^verbatim>\<open>Promise.all\<close> over the limiter's promises (line 76), as ECMAScript defines it: at
  the call, it is rejected with the first promise of the list that is already rejected,
  fulfilled when all are fulfilled, and pending otherwise; while it is pending, the
  first promise to be rejected rejects it, and the last to be fulfilled fulfils it.
\<close>

fun firstRejected :: "job list \<Rightarrow> error option" where
  "firstRejected [] = None"
| "firstRejected (j # js) =
     (case promise j of Rejected e \<Rightarrow> Some e | _ \<Rightarrow> firstRejected js)"

definition waitAll :: "state \<Rightarrow> state" where
  "waitAll s =
     s\<lparr>waitAllCalled := True,
       result :=
         (case firstRejected (promises s) of
            Some e \<Rightarrow> Rejected e
          | None \<Rightarrow> if list_all (\<lambda>j. promise j = Fulfilled) (promises s)
                    then Fulfilled else Pending)\<rparr>"

definition settled :: "nat \<Rightarrow> promise \<Rightarrow> state \<Rightarrow> state" where
  "settled k p s =
     (let s1 = s\<lparr>promises := (promises s)[k := (promises s ! k)\<lparr>promise := p\<rparr>]\<rparr> in
      if waitAllCalled s1 \<and> result s1 = Pending then
        (case p of
           Rejected e \<Rightarrow> s1\<lparr>result := Rejected e\<rparr>
         | Fulfilled \<Rightarrow>
             if list_all (\<lambda>j. promise j = Fulfilled) (promises s1)
             then s1\<lparr>result := Fulfilled\<rparr> else s1
         | Pending \<Rightarrow> s1)
      else s1)"

text \<open>
  The promise of lines 253 to 276: what an event of the worker thread settles it to.
  A message rejects (with the hint of line 259 in Compare mode), an error rejects, an
  exit with a code other than 0 rejects (the \<^verbatim>\<open>resolve()\<close> that follows has no effect
  then), and an exit with code 0 fulfils.
\<close>

fun workerSettles :: "Mode \<Rightarrow> wevent \<Rightarrow> promise" where
  "workerSettles m (OnMessage err) = Rejected (WorkerMessage err (m = Compare))"
| "workerSettles m (OnError err) = Rejected (Thrown err)"
| "workerSettles m (OnExit code) = (if code \<noteq> 0 then Rejected (WorkerExit code) else Fulfilled)"

text \<open>
  An event of the worker of job \<open>k\<close>. A promise settles once: an event for a job whose
  promise is settled changes nothing. When the worker's promise is fulfilled the
  callback of line 64 runs; when it is rejected, \<^verbatim>\<open>then\<close> has no handler for it and
  \<^verbatim>\<open>p\<close> is rejected with the same error.
\<close>

definition workerEvent :: "nat \<Rightarrow> wevent \<Rightarrow> state \<Rightarrow> state" where
  "workerEvent k ev s =
     (if k < length (promises s) \<and> promise (promises s ! k) = Pending then
        (case workerSettles (mode (workerData (promises s ! k))) ev of
           Fulfilled \<Rightarrow> (case thenCallback s of (s1, p) \<Rightarrow> settled k p s1)
         | Rejected e \<Rightarrow> settled k (Rejected e) s
         | Pending \<Rightarrow> s)
      else s)"

text \<open>
  One step of the dispatcher: the innermost frame runs up to the next \<^verbatim>\<open>await\<close>.
  \<^verbatim>\<open>addWork\<close> suspended on a \<^verbatim>\<open>Deferred\<close> that was not resolved stays suspended. When
  the loop of \<^verbatim>\<open>processContent\<close> is over, line 161 calls \<^verbatim>\<open>waitAll\<close>.
\<close>

fun dispatchFrame :: "config \<Rightarrow> Mode \<Rightarrow> bool \<Rightarrow> frame \<Rightarrow> state \<Rightarrow> state" where
  "dispatchFrame cfg m concurrently (ForNodes []) s = waitAll s"
| "dispatchFrame cfg m concurrently (ForNodes (node # nodes)) s =
     processContentNode cfg m node (s\<lparr>stack := ForNodes nodes # stack s\<rparr>)"
| "dispatchFrame cfg m concurrently (ForVersions data srcSnapshotsFolder []) s = s"
| "dispatchFrame cfg m concurrently (ForVersions data srcSnapshotsFolder (node # nodes)) s =
     (if \<not> isDirectory node
      then s\<lparr>stack := ForVersions data srcSnapshotsFolder nodes # stack s\<rparr>
      else
        let data' = data\<lparr>initializeFromSnapshotsDir :=
                           Some (srcSnapshotsFolder @ [name node])\<rparr>
        in s\<lparr>stack := ProcessNode data' # ForVersions data' srcSnapshotsFolder nodes # stack s\<rparr>)"
| "dispatchFrame cfg m concurrently (ProcessNode data) s = processNode cfg concurrently data s"
| "dispatchFrame cfg m concurrently (AwaitDeferred data d) s =
     (if d < length (deferreds s) \<and> 0 < deferreds s ! d
      then addWorkResumed data s
      else s\<lparr>stack := AwaitDeferred data d # stack s\<rparr>)"
| "dispatchFrame cfg m concurrently (WriteVersion versionFileName) s =
     (case writeFileSync (files s) versionFileName (stringifySnapshotVersion cfg (pkgVersion cfg)) of
        Inl e \<Rightarrow> reject e s
      | Inr fs' \<Rightarrow> s\<lparr>files := fs'\<rparr>)"

definition dispatch :: "config \<Rightarrow> Mode \<Rightarrow> bool \<Rightarrow> state \<Rightarrow> state" where
  "dispatch cfg m concurrently s =
     (case stack s of
        [] \<Rightarrow> s
      | f # rest \<Rightarrow> dispatchFrame cfg m concurrently f (s\<lparr>stack := rest\<rparr>))"

text \<open>
  A run is a sequence of turns of the event loop: the dispatcher takes a step, or a
  worker thread's event is handled. \<^verbatim>\<open>processContent\<close> starts the run (lines 119 and
  121); the interleaving of the turns is not fixed by the program.
\<close>

datatype turn = Dispatch | Worker nat wevent

fun step :: "config \<Rightarrow> Mode \<Rightarrow> bool \<Rightarrow> turn \<Rightarrow> state \<Rightarrow> state" where
  "step cfg m concurrently Dispatch s = dispatch cfg m concurrently s"
| "step cfg m concurrently (Worker k ev) s = workerEvent k ev s"

definition run :: "config \<Rightarrow> Mode \<Rightarrow> bool \<Rightarrow> turn list \<Rightarrow> state \<Rightarrow> state" where
  "run cfg m concurrently turns s = fold (step cfg m concurrently) turns s"

definition processContent :: "config \<Rightarrow> node \<Rightarrow> state" where
  "processContent cfg fs0 =
     (let s = \<lparr>files = fs0, limit = numberOfThreads, deferred = None, deferreds = [],
               promises = [], stack = [], waitAllCalled = False, result = Pending,
               console = [], started = []\<rparr>
      in case readdirSync fs0 (fileLocation cfg) of
           Inl e \<Rightarrow> reject e s
         | Inr nodes \<Rightarrow> s\<lparr>stack := [ForNodes nodes]\<rparr>)"


section \<open>What the proofs speak about\<close>

text \<open>The states of the limiter's promises, and the number of jobs that are running:
  the worker was started and its promise is not settled.\<close>

definition states :: "state \<Rightarrow> promise list" where
  "states s = map promise (promises s)"

definition running :: "state \<Rightarrow> nat" where
  "running s = count_list (states s) Pending"

fun isAwait :: "frame \<Rightarrow> bool" where
  "isAwait (AwaitDeferred a d) = True"
| "isAwait f = False"

text \<open>The dispatcher is inside \<^verbatim>\<open>addWork\<close>, at the \<^verbatim>\<open>await\<close> of line 59.\<close>

fun suspended :: "frame list \<Rightarrow> bool" where
  "suspended [] = False"
| "suspended (f # r) = isAwait f"

text \<open>
  The invariant of the limiter, over its fields \<open>l\<close> (\<^verbatim>\<open>limit\<close>), \<open>d\<close> (\<^verbatim>\<open>deferred\<close>),
  the \<^verbatim>\<open>Deferred\<close> objects \<open>ds\<close>, the dispatcher's stack, the number \<open>n\<close> of promises
  pushed and the number \<open>ful\<close> of them that are fulfilled: \<^verbatim>\<open>limit\<close> is the capacity
  minus the jobs admitted (started, or waiting at line 59) plus the jobs whose callback
  of line 64 ran; outside \<^verbatim>\<open>addWork\<close> there is no \<^verbatim>\<open>Deferred\<close> and \<^verbatim>\<open>limit\<close> is not
  negative; inside, either the \<^verbatim>\<open>Deferred\<close> is the pending one, never resolved, and
  \<^verbatim>\<open>limit\<close> is \<open>-1\<close>, or it was resolved once and cleared; and \<^verbatim>\<open>addWork\<close> is never
  suspended below another frame.
\<close>

definition gate :: "int \<Rightarrow> nat option \<Rightarrow> nat list \<Rightarrow> frame list \<Rightarrow> nat \<Rightarrow> nat \<Rightarrow> bool" where
  "gate l d ds st n ful \<longleftrightarrow>
     l = numberOfThreads - int n + int ful - (if suspended st then 1 else 0)
   \<and> (\<not> suspended st \<longrightarrow> d = None \<and> 0 \<le> l)
   \<and> (\<forall>a k r. st = AwaitDeferred a k # r \<longrightarrow>
         k < length ds \<and>
         (d = Some k \<and> ds ! k = 0 \<and> l = - 1 \<or> d = None \<and> ds ! k = 1 \<and> 0 \<le> l))
   \<and> (\<forall>f \<in> set (tl st). \<not> isAwait f)"

definition gateInv :: "state \<Rightarrow> bool" where
  "gateInv s =
     gate (limit s) (deferred s) (deferreds s) (stack s) (length (states s))
       (count_list (states s) Fulfilled)"

definition sameGate :: "state \<Rightarrow> state \<Rightarrow> bool" where
  "sameGate s s' \<longleftrightarrow>
     limit s' = limit s \<and> deferred s' = deferred s \<and> deferreds s' = deferreds s
     \<and> promises s' = promises s"

definition idle :: "state \<Rightarrow> bool" where
  "idle s \<longleftrightarrow> (\<forall>f \<in> set (stack s). \<not> isAwait f)"

text \<open>
  The shape of the dispatcher's stack: it is empty, or the loop of \<^verbatim>\<open>processContent\<close> is
  its outermost frame and occurs nowhere else. \<open>pushed st st'\<close> says that \<open>st'\<close> is \<open>st\<close>
  with frames other than that loop on top.
\<close>

fun isForNodes :: "frame \<Rightarrow> bool" where
  "isForNodes (ForNodes ns) = True"
| "isForNodes f = False"

definition shape :: "frame list \<Rightarrow> bool" where
  "shape st \<longleftrightarrow> st = [] \<or> (\<exists>top ns. st = top @ [ForNodes ns] \<and> (\<forall>f \<in> set top. \<not> isForNodes f))"

definition pushed :: "frame list \<Rightarrow> frame list \<Rightarrow> bool" where
  "pushed st st' \<longleftrightarrow> (\<exists>new. (\<forall>g \<in> set new. \<not> isForNodes g) \<and> st' = new @ st)"

text \<open>
  The invariant of the promise that \<^verbatim>\<open>processContent\<close> returns: it is settled only when
  nothing of the dispatcher is left to run; before \<^verbatim>\<open>waitAll\<close> is called it is not
  fulfilled; and once \<^verbatim>\<open>waitAll\<close> was called, it is pending only while no promise of the
  limiter is rejected, fulfilled only when all of them are fulfilled, and rejected only
  with the error of one of them.
\<close>

definition allInv :: "state \<Rightarrow> bool" where
  "allInv s \<longleftrightarrow>
     shape (stack s)
   \<and> (result s \<noteq> Pending \<longrightarrow> stack s = [])
   \<and> (\<not> waitAllCalled s \<longrightarrow> result s \<noteq> Fulfilled)
   \<and> (waitAllCalled s \<longrightarrow>
        stack s = []
      \<and> (result s = Pending \<longrightarrow> (\<forall>i < length (states s). \<forall>e. states s ! i \<noteq> Rejected e))
      \<and> (result s = Fulfilled \<longrightarrow> (\<forall>i < length (states s). states s ! i = Fulfilled))
      \<and> (\<forall>e. result s = Rejected e \<longrightarrow> (\<exists>i < length (states s). states s ! i = Rejected e)))"

text \<open>With worker threads, the jobs started are the jobs of the limiter's promises.\<close>

definition startedInv :: "config \<Rightarrow> bool \<Rightarrow> state \<Rightarrow> bool" where
  "startedInv cfg c s \<longleftrightarrow> (c \<and> worker_threads cfg \<longrightarrow> map workerData (promises s) = started s)"

text \<open>A state with the lines of \<^verbatim>\<open>console.error\<close> removed: nothing reads them.\<close>

definition withoutConsole :: "state \<Rightarrow> state" where
  "withoutConsole s = s\<lparr>console := []\<rparr>"

text \<open>
  A file system is well formed when no directory has two entries of the same name.
  \<open>entryNames fs p\<close> are the names of the entries of the directory at \<open>p\<close>, and
  \<open>snapshotVersion cfg data fs\<close> is the version that lines 211 and 212 read from the
  version file of the folder, if it can be read. A plain name is a string that is one
  component of a path and names an entry: not empty, not \<^verbatim>\<open>.\<close> or \<^verbatim>\<open>..\<close>, without \<^verbatim>\<open>/\<close>.
\<close>

fun wellFormed :: "node \<Rightarrow> bool" where
  "wellFormed (File c) = True"
| "wellFormed (Dir es) = (distinct (map fst es) \<and> (\<forall>e \<in> set es. wellFormed (snd e)))"

definition entryNames :: "node \<Rightarrow> path \<Rightarrow> string list" where
  "entryNames fs p = (case lookup fs p of Some (Dir es) \<Rightarrow> map fst es | _ \<Rightarrow> [])"

definition plainName :: "string \<Rightarrow> bool" where
  "plainName v \<longleftrightarrow> v \<noteq> [] \<and> v \<noteq> ''.'' \<and> v \<noteq> ''..'' \<and> CHR ''/'' \<notin> set v"

definition snapshotVersion :: "config \<Rightarrow> IWorkerArgs \<Rightarrow> node \<Rightarrow> string option" where
  "snapshotVersion cfg data fs =
     (case readFileSync fs (folder data @ [''current_snapshots'', ''snapshotVersion.json'']) of
        Inl e \<Rightarrow> None
      | Inr content \<Rightarrow> parseSnapshotVersion cfg content)"


text \<open>
  What it is for the jobs \<open>js\<close> to have been submitted between the states \<open>s0\<close> and
  \<open>s\<close>, and nothing else done. With worker threads each job is a promise that
  \<^verbatim>\<open>addWork\<close> pushed on the limiter's list, for a worker created with the job as its
  \<^verbatim>\<open>workerData\<close> (lines 64, 72 and 254), in this order after the promises that were
  there, and the dispatcher wrote no file. Inline each job is a call of the replay tool
  with the arguments that lines 81 to 93 build from the job (\<open>replayArgsOf\<close>), on the
  files the calls before it left, and the limiter's list is the same. In both cases the
  jobs are those started since \<open>s0\<close>.
\<close>

definition replayArgsOf :: "IWorkerArgs \<Rightarrow> ReplayArgs" where
  "replayArgsOf args =
     \<lparr>verbose = False,
      inDirName = folder args,
      outDirName = folder args @ [''current_snapshots''],
      replaySnapFreq = snapFreq args,
      write' = (mode args = Write),
      compare = (mode args = Compare),
      expandFiles = (mode args = Stress),
      replayInitializeFromSnapshotsDir = initializeFromSnapshotsDir args\<rparr>"

definition replay :: "config \<Rightarrow> IWorkerArgs list \<Rightarrow> node \<Rightarrow> node" where
  "replay cfg js fs = fold (\<lambda>d f. snd (Go cfg (replayArgsOf d) f)) js fs"

definition submitted :: "config \<Rightarrow> bool \<Rightarrow> state \<Rightarrow> IWorkerArgs list \<Rightarrow> state \<Rightarrow> bool" where
  "submitted cfg c s0 js s \<longleftrightarrow>
     started s = started s0 @ js
   \<and> (if c \<and> worker_threads cfg
      then map workerData (promises s) = map workerData (promises s0) @ js
         \<and> files s = files s0
      else map workerData (promises s) = map workerData (promises s0)
         \<and> files s = replay cfg js (files s0))"


subsection \<open>Example inputs\<close>

text \<open>A configuration whose replay tool throws for \<^verbatim>\<open>doc1\<close> and reports no error for any
  other folder, and whose version file holds the version string itself.\<close>

definition exampleConfig :: config where
  "exampleConfig =
     \<lparr>fileLocation = [''content''], pkgVersion = ''0.2'', worker_threads = True,
      Go = (\<lambda>a f. (if inDirName a = [''content'', ''doc1'']
                     then Inl (Thrown ''boom'') else Inr [], f)),
      parseSnapshotVersion = (\<lambda>t. if t = [] then None else Some t),
      stringifySnapshotVersion = (\<lambda>v. v)\<rparr>"

definition exampleDoc :: node where
  "exampleDoc =
     Dir [(''messages.json'', File ''ops''),
          (''current_snapshots'',
             Dir [(''snapshotVersion.json'', File ''0.1''), (''snapshot_0'', File ''a'')])]"

definition fiveDocs :: node where
  "fiveDocs =
     Dir [(''content'',
           Dir [(''doc1'', exampleDoc), (''doc2'', exampleDoc), (''doc3'', exampleDoc),
                (''doc4'', exampleDoc), (''doc5'', exampleDoc)])]"

definition twoDocs :: node where
  "twoDocs = Dir [(''content'', Dir [(''doc1'', exampleDoc), (''doc2'', exampleDoc)])]"

definition oneDoc :: node where
  "oneDoc = Dir [(''content'', Dir [(''doc1'', exampleDoc)])]"

definition noLogDocs :: node where
  "noLogDocs = Dir [(''content'', Dir [(''doc0'', Dir []), (''doc2'', exampleDoc)])]"

definition rejectedEarly :: state where
  "rejectedEarly =
     run exampleConfig Compare True (replicate 5 Dispatch @ [Worker 0 (OnExit 1)])
       (processContent exampleConfig twoDocs)"

definition gateFull :: state where
  "gateFull = run exampleConfig Compare True (replicate 12 Dispatch)
                (processContent exampleConfig fiveDocs)"

definition slotLeaked :: state where
  "slotLeaked = workerEvent 0 (OnExit 1) gateFull"

definition allFailed :: state where
  "allFailed =
     run exampleConfig Compare True
       [Worker 1 (OnMessage ''diff''), Worker 2 (OnError ''crash''), Worker 3 (OnExit 2),
        Dispatch, Dispatch]
       slotLeaked"

definition stampedEarly :: state where
  "stampedEarly = run exampleConfig Write True (replicate 3 Dispatch)
                    (processContent exampleConfig oneDoc)"

definition inlineAbort :: state where
  "inlineAbort = run exampleConfig Compare False (replicate 6 Dispatch)
                   (processContent exampleConfig twoDocs)"

definition bothFulfilled :: state where
  "bothFulfilled =
     run exampleConfig Compare True
       (replicate 5 Dispatch @ [Worker 0 (OnExit 0), Worker 1 (OnExit 0)])
       (processContent exampleConfig twoDocs)"

text \<open>Two folders in Compare mode with worker threads: both jobs started and
  \<^verbatim>\<open>waitAll\<close> about to be called (\<open>twoStarted\<close>); the same after the second job and then
  the first failed (\<open>bothRejected\<close>); and both jobs running when \<^verbatim>\<open>waitAll\<close> was called
  (\<open>bothRunning\<close>).\<close>

definition twoStarted :: state where
  "twoStarted = run exampleConfig Compare True (replicate 4 Dispatch)
                  (processContent exampleConfig twoDocs)"

definition bothRejected :: state where
  "bothRejected =
     run exampleConfig Compare True
       (replicate 4 Dispatch @ [Worker 1 (OnExit 7), Worker 0 (OnExit 3)])
       (processContent exampleConfig twoDocs)"

definition bothRunning :: state where
  "bothRunning = run exampleConfig Compare True (replicate 5 Dispatch)
                   (processContent exampleConfig twoDocs)"

definition inlineReady :: state where
  "inlineReady = run exampleConfig Compare False [Dispatch] (processContent exampleConfig twoDocs)"

definition doc1Args :: IWorkerArgs where
  "doc1Args = \<lparr>folder = [''content'', ''doc1''], mode = Compare, snapFreq = 1000,
                initializeFromSnapshotsDir = None\<rparr>"

definition noVersionDocs :: node where
  "noVersionDocs =
     Dir [(''content'',
           Dir [(''doc1'',
                 Dir [(''messages.json'', File ''ops''),
                      (''current_snapshots'', Dir [(''snapshot_0'', File ''a'')])])])]"

definition noLogStart :: state where
  "noLogStart = processContent exampleConfig noLogDocs"

definition doc0Write :: IWorkerArgs where
  "doc0Write = \<lparr>folder = [''content'', ''doc0''], mode = Write, snapFreq = 1000,
                 initializeFromSnapshotsDir = None\<rparr>"

definition doc1Write :: IWorkerArgs where
  "doc1Write = \<lparr>folder = [''content'', ''doc1''], mode = Write, snapFreq = 1000,
                 initializeFromSnapshotsDir = None\<rparr>"





definition rewriteConfig :: config where
  "rewriteConfig =
     exampleConfig\<lparr>pkgVersion := ''0.1'',
       Go := (\<lambda>a f. (Inr [],
                case writeFileSync f (outDirName a @ [''snapshot_0'']) ''b'' of
                  Inl e \<Rightarrow> f | Inr f' \<Rightarrow> f'))\<rparr>"




definition leftoverDocs :: node where
  "leftoverDocs =
     Dir [(''content'',
           Dir [(''doc1'',
                 Dir [(''messages.json'', File ''ops''),
                      (''current_snapshots'',
                       Dir [(''snapshotVersion.json'', File ''0.1''),
                            (''snapshot_0'', File ''a''),
                            (''FailedSnapshots'', Dir [(''snapshot_1'', File ''x'')])])])])]"

definition backupDocs :: node where
  "backupDocs =
     Dir [(''content'',
           Dir [(''doc1'',
                 Dir [(''messages.json'', File ''ops''),
                      (''current_snapshots'',
                       Dir [(''snapshotVersion.json'', File ''0.1''),
                            (''snapshot_0'', File ''a''),
                            (''backup'', Dir [])])])])]"

definition leftoverFolder :: node where
  "leftoverFolder =
     (case mkdirSync [''content'', ''doc1'', ''src_snapshots'', ''0.1''] leftoverDocs of
        Inl e \<Rightarrow> leftoverDocs | Inr fs \<Rightarrow> fs)"

definition leftoverArchived :: node where
  "leftoverArchived =
     (case copyFiles [''content'', ''doc1'', ''current_snapshots'']
             [''content'', ''doc1'', ''src_snapshots'', ''0.1'']
             [\<lparr>name = ''snapshotVersion.json'', isDirectory = False\<rparr>,
              \<lparr>name = ''snapshot_0'', isDirectory = False\<rparr>] leftoverFolder of
        Inl thrown \<Rightarrow> leftoverDocs | Inr fs \<Rightarrow> fs)"




definition sixVersionsDocs :: node where
  "sixVersionsDocs =
     Dir [(''content'',
           Dir [(''doc1'',
                 Dir [(''messages.json'', File ''ops''),
                      (''src_snapshots'',
                       Dir [(''1.0'', Dir []), (''2.0'', Dir []), (''3.0'', Dir []),
                            (''4.0'', Dir []), (''5.0'', Dir []), (''6.0'', Dir [])])])])]"

definition validateBlocked :: state where
  "validateBlocked =
     run exampleConfig Validate True
       (replicate 11 Dispatch
        @ [Worker 0 (OnExit 1), Worker 1 (OnExit 1), Worker 2 (OnExit 1), Worker 3 (OnExit 1)]
        @ replicate 5 Dispatch)
       (processContent exampleConfig sixVersionsDocs)"







definition leftoverDotDocs :: node where
  "leftoverDotDocs =
     Dir [(''content'',
           Dir [(''doc1'',
                 Dir [(''messages.json'', File ''ops''),
                      (''current_snapshots'',
                       Dir [(''snapshotVersion.json'', File ''./0.1''),
                            (''snapshot_0'', File ''a''),
                            (''FailedSnapshots'', Dir [(''snapshot_1'', File ''x'')])])])])]"

definition leftoverDotFolder :: node where
  "leftoverDotFolder =
     (case mkdirPath [''content'', ''doc1''] [''src_snapshots'', ''.'', ''0.1''] leftoverDotDocs of
        Inl thrown \<Rightarrow> leftoverDotDocs | Inr (dir, fs) \<Rightarrow> fs)"

definition leftoverDotArchived :: node where
  "leftoverDotArchived =
     (case copyFiles [''content'', ''doc1'', ''current_snapshots'']
             [''content'', ''doc1'', ''src_snapshots'', ''0.1'']
             [\<lparr>name = ''snapshotVersion.json'', isDirectory = False\<rparr>,
              \<lparr>name = ''snapshot_0'', isDirectory = False\<rparr>] leftoverDotFolder of
        Inl thrown \<Rightarrow> leftoverDotDocs | Inr fs \<Rightarrow> fs)"


section \<open>The limiter's invariant\<close>

lemma count_list_update:
  "k < length xs \<Longrightarrow>
   int (count_list (xs[k := y]) q) =
     int (count_list xs q) - (if xs ! k = q then 1 else 0) + (if y = q then 1 else 0)"
proof (induction xs arbitrary: k)
  case Nil
  then show ?case by simp
next
  case (Cons x xs)
  show ?case
  proof (cases k)
    case 0
    then show ?thesis by simp
  next
    case (Suc n)
    with Cons.prems have "n < length xs" by simp
    from Cons.IH [OF this] Suc show ?thesis by (auto split: if_splits)
  qed
qed

lemma count_two_le:
  "p \<noteq> q \<Longrightarrow> count_list xs p + count_list xs q \<le> length xs"
  by (induction xs) auto

lemma isAwait_iff: "isAwait f \<longleftrightarrow> (\<exists>a k. f = AwaitDeferred a k)"
  by (cases f) auto

lemma suspended_iff: "suspended st \<longleftrightarrow> (\<exists>a k r. st = AwaitDeferred a k # r)"
  by (induction st rule: suspended.induct) (auto elim: isAwait.elims)

lemma gate_idle:
  "gate l d ds st n ful \<Longrightarrow> \<not> suspended st \<Longrightarrow> \<forall>f \<in> set st'. \<not> isAwait f \<Longrightarrow>
   gate l d ds st' n ful"
  unfolding gate_def suspended_iff by (cases st') auto

lemma gate_start:
  "gate l d ds st n ful \<Longrightarrow> \<not> suspended st \<Longrightarrow> 0 \<le> l - 1 \<Longrightarrow>
   gate (l - 1) d ds st (Suc n) ful"
  unfolding gate_def by auto

lemma gate_wait:
  "gate l d ds st n ful \<Longrightarrow> \<not> suspended st \<Longrightarrow> l - 1 < 0 \<Longrightarrow>
   gate (l - 1) (Some (length ds)) (ds @ [0]) (AwaitDeferred a (length ds) # st) n ful \<and> d = None"
  unfolding gate_def suspended_iff by (cases st) (auto simp: nth_append isAwait_iff)

lemma gate_resume:
  "gate l d ds (AwaitDeferred a k # st) n ful \<Longrightarrow> 0 < ds ! k \<Longrightarrow>
   gate l d ds st (Suc n) ful \<and> d = None \<and> 0 \<le> l"
  unfolding gate_def suspended_iff by (cases st) (auto simp: isAwait_iff)

lemma gate_release:
  "gate l None ds st n ful \<Longrightarrow> gate (l + 1) None ds st n (Suc ful)"
  unfolding gate_def by auto

lemma gate_resolve:
  "gate l (Some k) ds st n ful \<Longrightarrow>
   l + 1 = 0 \<and> gate (l + 1) None (ds[k := Suc (ds ! k)]) st n (Suc ful)"
  unfolding gate_def suspended_iff by auto

lemma gateInv_idle:
  "gateInv s \<Longrightarrow> \<not> suspended (stack s) \<Longrightarrow> sameGate s s' \<Longrightarrow> idle s' \<Longrightarrow> gateInv s'"
  unfolding gateInv_def sameGate_def idle_def states_def
  by (auto intro: gate_idle)

lemma gateInv_not_suspended:
  "gateInv s \<Longrightarrow> stack s = f # r \<Longrightarrow> \<not> isAwait f \<Longrightarrow>
   idle (s\<lparr>stack := r\<rparr>) \<and> \<not> suspended (stack s)"
  unfolding gateInv_def gate_def idle_def by auto

lemma reject_fields [simp]:
  "limit (reject e s) = limit s" "deferred (reject e s) = deferred s"
  "deferreds (reject e s) = deferreds s" "promises (reject e s) = promises s"
  "stack (reject e s) = []" "started (reject e s) = started s"
  "files (reject e s) = files s" "result (reject e s) = Rejected e"
  "waitAllCalled (reject e s) = waitAllCalled s" "console (reject e s) = console s"
  by (simp_all add: reject_def)

lemma sameGate_refl [simp]: "sameGate s s"
  by (simp add: sameGate_def)

lemma sameGate_reject [simp]: "sameGate s (reject e s') = sameGate s s'"
  by (simp add: sameGate_def)

lemma idle_reject [simp]: "idle (reject e s)"
  by (simp add: idle_def)

lemma sameGate_trans: "sameGate s s' \<Longrightarrow> sameGate s' s'' \<Longrightarrow> sameGate s s''"
  by (simp add: sameGate_def)

lemma processNodeForValidate_gate:
  "sameGate s (processNodeForValidate data s)"
  "idle s \<Longrightarrow> idle (processNodeForValidate data s)"
  by (auto simp: processNodeForValidate_def Let_def sameGate_def idle_def split: sum.splits)

lemma processNodeForWrite_gate:
  "sameGate s (processNodeForWrite cfg data s)"
  "idle s \<Longrightarrow> idle (processNodeForWrite cfg data s)"
  by (auto simp: processNodeForWrite_def Let_def sameGate_def idle_def
      split: sum.splits prod.splits)

lemma processContentNode_gate:
  "sameGate s (processContentNode cfg m n s)"
  "idle s \<Longrightarrow> idle (processContentNode cfg m n s)"
proof -
  show "sameGate s (processContentNode cfg m n s)"
    unfolding processContentNode_def Let_def
    by (auto split: sum.splits Mode.splits
        intro!: sameGate_trans [OF _ processNodeForValidate_gate(1)]
                sameGate_trans [OF _ processNodeForWrite_gate(1)])
       (simp_all add: sameGate_def)
  show "idle s \<Longrightarrow> idle (processContentNode cfg m n s)"
    unfolding processContentNode_def Let_def
    by (auto split: sum.splits Mode.splits
        intro!: processNodeForValidate_gate(2) processNodeForWrite_gate(2))
       (simp_all add: idle_def)
qed

lemma gateInv_addWork:
  assumes "gateInv s" "idle s"
  shows "gateInv (addWork wd s)"
proof -
  from assms(2) have ns: "\<not> suspended (stack s)"
    by (cases "stack s") (auto simp: idle_def)
  from assms(1) have g: "gate (limit s) (deferred s) (deferreds s) (stack s)
       (length (states s)) (count_list (states s) Fulfilled)"
    by (simp add: gateInv_def)
  show ?thesis
  proof (cases "limit s - 1 < 0")
    case True
    from gate_wait [OF g ns True, of wd] show ?thesis
      using True by (simp add: addWork_def Let_def gateInv_def states_def)
  next
    case False
    then have "0 \<le> limit s - 1" by simp
    from gate_start [OF g ns this] False show ?thesis
      by (simp add: addWork_def Let_def gateInv_def states_def startWorker_def)
  qed
qed

lemma gateInv_processNode:
  assumes "gateInv s" "idle s"
  shows "gateInv (processNode cfg c data s)"
proof (cases "\<not> c \<or> \<not> worker_threads cfg")
  case False
  then show ?thesis using gateInv_addWork [OF assms] by (simp add: processNode_def)
next
  case True
  from assms(2) have ns: "\<not> suspended (stack s)"
    by (cases "stack s") (auto simp: idle_def)
  have "sameGate s (processNode cfg c data s) \<and> idle (processNode cfg c data s)"
    using True assms(2)
    by (auto simp: processNode_def processOneFile_def Let_def sameGate_def idle_def
        split: prod.splits sum.splits if_splits)
  with gateInv_idle [OF assms(1) ns] show ?thesis by blast
qed

lemma gateInv_addWorkResumed:
  assumes "gateInv s" "stack s = AwaitDeferred wd k # r" "0 < deferreds s ! k"
  shows "gateInv (addWorkResumed wd (s\<lparr>stack := r\<rparr>))"
proof -
  from assms(1,2) have g: "gate (limit s) (deferred s) (deferreds s) (AwaitDeferred wd k # r)
       (length (states s)) (count_list (states s) Fulfilled)"
    by (simp add: gateInv_def)
  from gate_resume [OF g assms(3)] show ?thesis
    by (auto simp: addWorkResumed_def gateInv_def states_def startWorker_def)
qed

lemma states_settled: "states (settled k p s) = (states s)[k := p]"
  by (simp add: states_def settled_def Let_def map_update split: promise.splits)

lemma settled_fields [simp]:
  "limit (settled k p s) = limit s" "deferred (settled k p s) = deferred s"
  "deferreds (settled k p s) = deferreds s" "stack (settled k p s) = stack s"
  "files (settled k p s) = files s" "started (settled k p s) = started s"
  "waitAllCalled (settled k p s) = waitAllCalled s" "console (settled k p s) = console s"
  by (simp_all add: settled_def Let_def split: promise.splits)

lemma gateInv_workerEvent:
  assumes "gateInv s"
  shows "gateInv (workerEvent k ev s)"
proof (cases "k < length (promises s) \<and> promise (promises s ! k) = Pending")
  case False
  then show ?thesis using assms by (auto simp: workerEvent_def)
next
  case True
  then have k: "k < length (states s)" "states s ! k = Pending"
    by (simp_all add: states_def)
  from assms have g: "gate (limit s) (deferred s) (deferreds s) (stack s) (length (states s))
       (count_list (states s) Fulfilled)"
    by (simp add: gateInv_def)
  have cF: "count_list ((states s)[k := Fulfilled]) Fulfilled
              = Suc (count_list (states s) Fulfilled)"
    using k count_list_update [of k "states s" Fulfilled Fulfilled] by simp
  have cR: "count_list ((states s)[k := Rejected e]) Fulfilled
              = count_list (states s) Fulfilled" for e
    using k count_list_update [of k "states s" "Rejected e" Fulfilled] by simp
  show ?thesis
  proof (cases "workerSettles (mode (workerData (promises s ! k))) ev")
    case Pending
    then show ?thesis using assms True by (simp add: workerEvent_def)
  next
    case Fulfilled
    show ?thesis
    proof (cases "deferred s")
      case None
      with g have "gate (limit s + 1) None (deferreds s) (stack s) (length (states s))
         (Suc (count_list (states s) Fulfilled))"
        by (simp add: gate_release)
      then show ?thesis using True Fulfilled None
        by (simp add: workerEvent_def thenCallback_def Let_def gateInv_def states_settled)
           (simp add: states_def cF [unfolded states_def])
    next
      case (Some d)
      with g have g': "gate (limit s) (Some d) (deferreds s) (stack s) (length (states s))
           (count_list (states s) Fulfilled)"
        by simp
      from gate_resolve [OF g']
      have "limit s + 1 = 0"
        and "gate (limit s + 1) None ((deferreds s)[d := Suc (deferreds s ! d)])
               (stack s) (length (states s)) (Suc (count_list (states s) Fulfilled))"
        by blast+
      then show ?thesis using True Fulfilled Some
        by (simp add: workerEvent_def thenCallback_def Let_def gateInv_def states_settled)
           (simp add: states_def cF [unfolded states_def])
    qed
  next
    case (Rejected e)
    then show ?thesis using True g
      by (simp add: workerEvent_def gateInv_def states_settled cR)
  qed
qed

lemma gateInv_dispatch:
  assumes "gateInv s"
  shows "gateInv (dispatch cfg m c s)"
proof (cases "stack s")
  case Nil
  then show ?thesis using assms by (simp add: dispatch_def)
next
  case (Cons f r)
  show ?thesis
  proof (cases "isAwait f")
    case True
    then obtain wd k where f: "f = AwaitDeferred wd k" by (auto simp: isAwait_iff)
    have same: "s\<lparr>stack := AwaitDeferred wd k # r\<rparr> = s" using Cons f by simp
    show ?thesis
      using gateInv_addWorkResumed [OF assms, of wd k r] Cons f assms
      by (auto simp: dispatch_def same)
  next
    case False
    from gateInv_not_suspended [OF assms Cons False]
    have i: "idle (s\<lparr>stack := r\<rparr>)" and ns: "\<not> suspended (stack s)" by simp_all
    note keep = gateInv_idle [OF assms ns]
    show ?thesis
    proof (cases f)
      case (ForNodes ns)
      show ?thesis
      proof (cases ns)
        case Nil
        show ?thesis using Cons ForNodes Nil i
          by (auto intro!: keep simp: dispatch_def waitAll_def sameGate_def idle_def)
      next
        case (Cons n ns')
        have i': "idle (s\<lparr>stack := ForNodes ns' # r\<rparr>)" using i by (simp add: idle_def)
        have "sameGate s (s\<lparr>stack := ForNodes ns' # r\<rparr>)" by (simp add: sameGate_def)
        from sameGate_trans [OF this processContentNode_gate(1)]
             processContentNode_gate(2) [OF i']
        show ?thesis using \<open>stack s = f # r\<close> ForNodes Cons
          by (auto intro!: keep simp: dispatch_def)
      qed
    next
      case (ForVersions d src ns)
      then show ?thesis using Cons i
        by (cases ns) (auto intro!: keep simp: dispatch_def sameGate_def idle_def Let_def)
    next
      case (ProcessNode d)
      have "gateInv (s\<lparr>stack := r\<rparr>)"
        using i by (auto intro!: keep simp: sameGate_def)
      from gateInv_processNode [OF this i] show ?thesis
        using Cons ProcessNode by (simp add: dispatch_def)
    next
      case (AwaitDeferred wd k)
      with False show ?thesis by simp
    next
      case (WriteVersion vf)
      then show ?thesis using Cons i
        by (auto intro!: keep simp: dispatch_def sameGate_def idle_def split: sum.splits)
    qed
  qed
qed

lemma gateInv_step: "gateInv s \<Longrightarrow> gateInv (step cfg m c t s)"
  by (cases t) (simp_all add: gateInv_dispatch gateInv_workerEvent)

lemma gateInv_run: "gateInv s \<Longrightarrow> gateInv (run cfg m c ts s)"
  unfolding run_def by (induction ts arbitrary: s) (simp_all add: gateInv_step)

lemma gateInv_processContent: "gateInv (processContent cfg fs0)"
  by (auto simp: processContent_def Let_def gateInv_def gate_def states_def reject_def
      numberOfThreads_def split: sum.splits)

lemma gate_bounds:
  assumes "gate l d ds st n ful" and "pen + ful \<le> n"
  shows "int pen \<le> numberOfThreads" and "int n - int ful \<le> numberOfThreads"
    and "d = None \<Longrightarrow> 0 \<le> l \<and> l \<le> numberOfThreads"
    and "d \<noteq> None \<Longrightarrow> l = - 1"
proof -
  have l: "l = numberOfThreads - int n + int ful - (if suspended st then 1 else 0)"
    using assms(1) by (simp add: gate_def)
  have low: "- 1 \<le> l"
  proof (cases "suspended st")
    case True
    then obtain a k r where "st = AwaitDeferred a k # r" by (auto simp: suspended_iff)
    with assms(1) show ?thesis unfolding gate_def by auto
  next
    case False
    with assms(1) show ?thesis by (simp add: gate_def)
  qed
  have nonneg: "\<not> suspended st \<Longrightarrow> 0 \<le> l" using assms(1) by (simp add: gate_def)
  show "int n - int ful \<le> numberOfThreads"
    using l low nonneg by (cases "suspended st") auto
  then show "int pen \<le> numberOfThreads" using assms(2) by linarith
  show "0 \<le> l \<and> l \<le> numberOfThreads" if "d = None"
  proof (cases "suspended st")
    case True
    then obtain a k r where "st = AwaitDeferred a k # r" by (auto simp: suspended_iff)
    with assms(1) that have "0 \<le> l" unfolding gate_def by auto
    with l assms(2) show ?thesis by auto
  next
    case False
    with nonneg l assms(2) show ?thesis by auto
  qed
  show "l = - 1" if "d \<noteq> None"
  proof (cases "suspended st")
    case True
    then obtain a k r where "st = AwaitDeferred a k # r" by (auto simp: suspended_iff)
    with assms(1) that show ?thesis unfolding gate_def by auto
  next
    case False
    with assms(1) that show ?thesis by (simp add: gate_def)
  qed
qed

text \<open>
  Claim C1. In every run of the dispatcher, under every interleaving of its steps with
  the events of the worker threads, at most \<^verbatim>\<open>numberOfThreads\<close> = 4 jobs are running,
  and even the jobs started and not fulfilled are at most 4. The limiter's counter
  \<^verbatim>\<open>limit\<close> is the capacity that is left (the spec's \<^verbatim>\<open>inFlight\<close> is the capacity
  minus \<^verbatim>\<open>limit\<close>): whenever no continuation is pending in \<^verbatim>\<open>deferred\<close> it lies
  between 0 and 4, and while one is pending, inside \<^verbatim>\<open>addWork\<close>, it is \<open>-1\<close>.
\<close>

theorem bounded_concurrency:
  "let s = run cfg m concurrently turns (processContent cfg fs0) in
     numberOfThreads = 4
   \<and> int (running s) \<le> numberOfThreads
   \<and> int (length (promises s)) - int (count_list (states s) Fulfilled) \<le> numberOfThreads
   \<and> (deferred s = None \<longrightarrow> 0 \<le> limit s \<and> limit s \<le> numberOfThreads)
   \<and> (deferred s \<noteq> None \<longrightarrow> limit s = - 1)"
proof -
  define s where "s = run cfg m concurrently turns (processContent cfg fs0)"
  have "gateInv s"
    unfolding s_def by (rule gateInv_run [OF gateInv_processContent])
  then have g: "gate (limit s) (deferred s) (deferreds s) (stack s) (length (states s))
       (count_list (states s) Fulfilled)"
    by (simp add: gateInv_def)
  have c: "running s + count_list (states s) Fulfilled \<le> length (states s)"
    unfolding running_def by (rule count_two_le) simp
  have len: "length (states s) = length (promises s)" by (simp add: states_def)
  from gate_bounds [OF g c] len show ?thesis
    unfolding s_def [symmetric] Let_def by (simp add: numberOfThreads_def)
qed

theorem bounded_concurrency_witness:
  "(let s = run exampleConfig Compare True (replicate 12 Dispatch @ [Worker 0 (OnExit 0)])
              (processContent exampleConfig fiveDocs)
    in deferred s = None \<and> running s = 3 \<and> limit s = 0 \<and> 0 \<le> limit s
       \<and> limit s \<le> numberOfThreads)
   \<and> (let s = run exampleConfig Compare True (replicate 12 Dispatch)
              (processContent exampleConfig fiveDocs)
      in deferred s \<noteq> None \<and> running s = 4 \<and> limit s = - 1)"
proof -
  let ?s = "run exampleConfig Compare True (replicate 12 Dispatch @ [Worker 0 (OnExit 0)])
              (processContent exampleConfig fiveDocs)"
  let ?t = "run exampleConfig Compare True (replicate 12 Dispatch)
              (processContent exampleConfig fiveDocs)"
  have a: "deferred ?s = None \<and> running ?s = 3 \<and> limit ?s = 0" by code_simp
  have b: "deferred ?t \<noteq> None \<and> running ?t = 4" by code_simp
  from a b
    bounded_concurrency [of exampleConfig Compare True
      "replicate 12 Dispatch @ [Worker 0 (OnExit 0)]" fiveDocs]
    bounded_concurrency [of exampleConfig Compare True "replicate 12 Dispatch" fiveDocs]
  show ?thesis by (simp add: Let_def)
qed

section \<open>The promise of waitAll\<close>

lemma shape_Nil [simp]: "shape []"
  by (simp add: shape_def)

lemma shape_push:
  assumes "shape (f # r)" "\<not> isForNodes f" "\<forall>g \<in> set new. \<not> isForNodes g"
  shows "shape (new @ r)"
proof -
  from assms(1) obtain top ns where t: "f # r = top @ [ForNodes ns]" "\<forall>g \<in> set top. \<not> isForNodes g"
    by (auto simp: shape_def)
  with assms(2) obtain top' where "top = f # top'" by (cases top) auto
  with t have "new @ r = (new @ top') @ [ForNodes ns]" "\<forall>g \<in> set (new @ top'). \<not> isForNodes g"
    using assms(3) by auto
  then show ?thesis unfolding shape_def by blast
qed

lemma shape_bottom:
  assumes "shape (ForNodes ns # r)"
  shows "r = []"
proof -
  from assms obtain top ns' where t: "ForNodes ns # r = top @ [ForNodes ns']" "\<forall>g \<in> set top. \<not> isForNodes g"
    by (auto simp: shape_def)
  then show ?thesis by (cases top) auto
qed

lemma shape_next:
  "\<forall>g \<in> set new. \<not> isForNodes g \<Longrightarrow> shape (new @ [ForNodes ns])"
  unfolding shape_def by blast

lemma firstRejected_None:
  "firstRejected js = None \<longleftrightarrow> (\<forall>i < length js. \<forall>e. promise (js ! i) \<noteq> Rejected e)"
proof (induction js)
  case Nil
  then show ?case by simp
next
  case (Cons j js)
  show ?case
  proof (cases "promise j")
    case (Rejected e)
    then show ?thesis by auto
  next
    case Pending
    then show ?thesis using Cons by (auto simp: nth_Cons split: nat.splits)
  next
    case Fulfilled
    then show ?thesis using Cons by (auto simp: nth_Cons split: nat.splits)
  qed
qed

lemma firstRejected_Some:
  "firstRejected js = Some e \<Longrightarrow> \<exists>i < length js. promise (js ! i) = Rejected e"
proof (induction js)
  case Nil
  then show ?case by simp
next
  case (Cons j js)
  show ?case
  proof (cases "promise j")
    case (Rejected e')
    with Cons.prems show ?thesis by auto
  next
    case Pending
    with Cons obtain i where "i < length js" "promise (js ! i) = Rejected e" by auto
    then show ?thesis by (intro exI [of _ "Suc i"]) simp
  next
    case Fulfilled
    with Cons obtain i where "i < length js" "promise (js ! i) = Rejected e" by auto
    then show ?thesis by (intro exI [of _ "Suc i"]) simp
  qed
qed

lemma list_all_Fulfilled:
  "list_all (\<lambda>j. promise j = Fulfilled) js \<longleftrightarrow> (\<forall>i < length js. promise (js ! i) = Fulfilled)"
  by (simp add: list_all_length)

lemma allInv_waitAll:
  assumes "stack s = []" "\<not> waitAllCalled s" "result s = Pending"
  shows "allInv (waitAll s)"
proof (cases "firstRejected (promises s)")
  case None
  then have "\<forall>i < length (promises s). \<forall>e. promise (promises s ! i) \<noteq> Rejected e"
    by (simp add: firstRejected_None)
  then show ?thesis using assms None
    by (auto simp: allInv_def waitAll_def states_def list_all_Fulfilled)
next
  case (Some e)
  from firstRejected_Some [OF this] show ?thesis using assms Some
    by (auto simp: allInv_def waitAll_def states_def)
qed


lemma pushed_refl [simp]: "pushed st st"
  unfolding pushed_def by (rule exI [of _ "[]"]) simp

lemma pushed_Cons [simp]: "\<not> isForNodes f \<Longrightarrow> pushed st st' \<Longrightarrow> pushed st (f # st')"
  unfolding pushed_def by (auto intro: exI [of _ "f # new" for new])

lemma dispatchFrame_stack:
  assumes "f \<noteq> ForNodes []"
  shows "stack (dispatchFrame cfg m c f s) = [] \<or>
         pushed (case f of ForNodes ns \<Rightarrow> ForNodes (tl ns) # stack s | _ \<Rightarrow> stack s)
           (stack (dispatchFrame cfg m c f s))"
proof (cases f)
  case (ForNodes ns)
  with assms obtain n ns' where ns: "ns = n # ns'" by (cases ns) auto
  show ?thesis unfolding ForNodes ns
    by (auto simp: processContentNode_def processNodeForValidate_def processNodeForWrite_def
        Let_def split: sum.splits Mode.splits prod.splits)
next
  case (ForVersions d src ns)
  then show ?thesis by (cases ns) (auto simp: Let_def)
next
  case (ProcessNode d)
  then show ?thesis
    by (auto simp: processNode_def processOneFile_def addWork_def startWorker_def Let_def
        split: sum.splits prod.splits if_splits)
next
  case (AwaitDeferred d k)
  then show ?thesis
    by (auto simp: addWorkResumed_def startWorker_def)
next
  case (WriteVersion vf)
  then show ?thesis by (auto split: sum.splits)
qed

lemma dispatchFrame_outcome:
  assumes "f \<noteq> ForNodes []"
  shows "waitAllCalled (dispatchFrame cfg m c f s) = waitAllCalled s \<and>
         (result (dispatchFrame cfg m c f s) = result s \<or>
          (\<exists>e. result (dispatchFrame cfg m c f s) = Rejected e \<and>
               stack (dispatchFrame cfg m c f s) = []))"
proof (cases f)
  case (ForNodes ns)
  with assms obtain n ns' where "ns = n # ns'" by (cases ns) auto
  with ForNodes show ?thesis
    by (auto simp: processContentNode_def processNodeForValidate_def processNodeForWrite_def
        Let_def split: sum.splits Mode.splits prod.splits)
next
  case (ForVersions d src ns)
  then show ?thesis by (cases ns) (auto simp: Let_def)
next
  case (ProcessNode d)
  then show ?thesis
    by (auto simp: processNode_def processOneFile_def addWork_def startWorker_def Let_def
        split: sum.splits prod.splits if_splits)
next
  case (AwaitDeferred d k)
  then show ?thesis
    by (auto simp: addWorkResumed_def startWorker_def)
next
  case (WriteVersion vf)
  then show ?thesis by (auto split: sum.splits)
qed

lemma allInv_dispatch:
  assumes "allInv s"
  shows "allInv (dispatch cfg m c s)"
proof (cases "stack s")
  case Nil
  then show ?thesis using assms by (simp add: dispatch_def)
next
  case (Cons f r)
  with assms have p: "result s = Pending" "\<not> waitAllCalled s"
    by (auto simp: allInv_def)
  show ?thesis
  proof (cases "f = ForNodes []")
    case True
    from assms Cons True have "r = []" using shape_bottom [of "[]" r]
      by (simp add: allInv_def)
    with p have "allInv (waitAll (s\<lparr>stack := r\<rparr>))"
      by (intro allInv_waitAll) simp_all
    then show ?thesis using Cons True by (simp add: dispatch_def)
  next
    case False
    have sh: "shape (stack (dispatchFrame cfg m c f (s\<lparr>stack := r\<rparr>)))"
    proof (cases "isForNodes f")
      case True
      then obtain ns where f: "f = ForNodes ns" by (cases f) auto
      with assms Cons have "r = []" using shape_bottom [of ns r] by (simp add: allInv_def)
      with dispatchFrame_stack [OF False, of cfg m c "s\<lparr>stack := r\<rparr>"] f
      show ?thesis by (auto simp: pushed_def intro: shape_next)
    next
      case nf: False
      from assms Cons have sf: "shape (f # r)" by (simp add: allInv_def)
      have "stack (dispatchFrame cfg m c f (s\<lparr>stack := r\<rparr>)) = [] \<or>
            pushed r (stack (dispatchFrame cfg m c f (s\<lparr>stack := r\<rparr>)))"
        using dispatchFrame_stack [OF False, of cfg m c "s\<lparr>stack := r\<rparr>"] nf
        by (cases f) (simp_all del: dispatchFrame.simps)
      with shape_push [OF sf nf] show ?thesis by (auto simp: pushed_def)
    qed
    from dispatchFrame_outcome [OF False, of cfg m c "s\<lparr>stack := r\<rparr>"] p sh
    show ?thesis using Cons
      by (auto simp: dispatch_def allInv_def)
  qed
qed


lemma list_all_promise:
  "list_all (\<lambda>j. promise j = Fulfilled) js = list_all (\<lambda>q. q = Fulfilled) (map promise js)"
  by (induction js) auto

lemma settled_result:
  "result (settled k p s) =
     (if waitAllCalled s \<and> result s = Pending then
        (case p of Rejected e \<Rightarrow> Rejected e
         | Fulfilled \<Rightarrow> if list_all (\<lambda>q. q = Fulfilled) ((states s)[k := Fulfilled])
                         then Fulfilled else Pending
         | Pending \<Rightarrow> Pending)
      else result s)"
  by (cases p) (simp_all add: settled_def Let_def states_def list_all_promise map_update)

lemma allInv_settled:
  assumes "allInv s" "k < length (states s)" "states s ! k = Pending" "p \<noteq> Pending"
  shows "allInv (settled k p s)"
proof -
  have st: "states (settled k p s) = (states s)[k := p]" by (rule states_settled)
  have keep: "\<exists>i < length (states s). (states s)[k := p] ! i = Rejected e"
    if "\<exists>i < length (states s). states s ! i = Rejected e" for e
  proof -
    from that obtain i where i: "i < length (states s)" "states s ! i = Rejected e" by blast
    with assms(3) have "i \<noteq> k" by auto
    with i show ?thesis by (intro exI [of _ i]) simp
  qed
  show ?thesis
  proof (cases "waitAllCalled s \<and> result s = Pending")
    case False
    then have r: "result (settled k p s) = result s" by (auto simp: settled_result)
    show ?thesis
      using assms False keep unfolding allInv_def st r
      by (auto simp: nth_list_update)
  next
    case True
    with assms(1) have nr: "\<forall>i < length (states s). \<forall>e. states s ! i \<noteq> Rejected e"
      and stk: "stack s = []"
      by (auto simp: allInv_def)
    show ?thesis
    proof (cases p)
      case Pending
      with assms(4) show ?thesis by simp
    next
      case Fulfilled
      then show ?thesis using True nr stk assms(2)
        unfolding allInv_def st
        by (auto simp: settled_result nth_list_update list_all_length)
    next
      case (Rejected e)
      then show ?thesis using True stk assms(2)
        unfolding allInv_def st
        by (auto simp: settled_result intro!: exI [of _ k])
    qed
  qed
qed

lemma thenCallback_fields [simp]:
  "stack (fst (thenCallback s)) = stack s" "result (fst (thenCallback s)) = result s"
  "waitAllCalled (fst (thenCallback s)) = waitAllCalled s"
  "promises (fst (thenCallback s)) = promises s"
  "files (fst (thenCallback s)) = files s" "started (fst (thenCallback s)) = started s"
  "console (fst (thenCallback s)) = console s"
  by (simp_all add: thenCallback_def Let_def split: option.splits)

lemma allInv_cong:
  "allInv s \<Longrightarrow> stack s' = stack s \<Longrightarrow> result s' = result s \<Longrightarrow>
   waitAllCalled s' = waitAllCalled s \<Longrightarrow> promises s' = promises s \<Longrightarrow> allInv s'"
  by (simp add: allInv_def states_def)

lemma workerSettles_not_Pending [simp]: "workerSettles m ev \<noteq> Pending"
  by (cases ev) auto

lemma thenCallback_not_Pending [simp]: "snd (thenCallback s) \<noteq> Pending"
  by (simp add: thenCallback_def Let_def split: option.splits)

lemma allInv_workerEvent:
  assumes "allInv s"
  shows "allInv (workerEvent k ev s)"
proof (cases "k < length (promises s) \<and> promise (promises s ! k) = Pending")
  case False
  then show ?thesis using assms by (auto simp: workerEvent_def)
next
  case True
  then have k: "k < length (states s)" "states s ! k = Pending"
    by (simp_all add: states_def)
  show ?thesis
  proof (cases "workerSettles (mode (workerData (promises s ! k))) ev")
    case Pending
    then show ?thesis by simp
  next
    case Fulfilled
    obtain s1 p where cb: "thenCallback s = (s1, p)" by (cases "thenCallback s")
    then have s1: "s1 = fst (thenCallback s)" and p: "p = snd (thenCallback s)" by simp_all
    have "allInv s1" by (rule allInv_cong [OF assms]) (simp_all add: s1)
    moreover have "k < length (states s1)" "states s1 ! k = Pending"
      using k by (simp_all add: s1 states_def)
    moreover have "p \<noteq> Pending" by (simp add: p)
    ultimately have "allInv (settled k p s1)" by (rule allInv_settled)
    then show ?thesis using True Fulfilled cb by (simp add: workerEvent_def)
  next
    case (Rejected e)
    from allInv_settled [OF assms k, of "Rejected e"] True Rejected
    show ?thesis by (simp add: workerEvent_def)
  qed
qed

lemma allInv_step: "allInv s \<Longrightarrow> allInv (step cfg m c t s)"
  by (cases t) (simp_all add: allInv_dispatch allInv_workerEvent)

lemma allInv_run: "allInv s \<Longrightarrow> allInv (run cfg m c ts s)"
  unfolding run_def by (induction ts arbitrary: s) (simp_all add: allInv_step)

lemma allInv_processContent: "allInv (processContent cfg fs0)"
  by (auto simp: processContent_def Let_def allInv_def shape_def reject_def
      split: sum.splits intro!: exI [of _ "[]"])

lemma processNodeForValidate_fields [simp]:
  "promises (processNodeForValidate data s) = promises s"
  "started (processNodeForValidate data s) = started s"
  "console (processNodeForValidate data s) = console s"
  "files (processNodeForValidate data s) = files s"
  "waitAllCalled (processNodeForValidate data s) = waitAllCalled s"
  by (simp_all add: processNodeForValidate_def Let_def split: sum.splits)

lemma processNodeForWrite_fields [simp]:
  "promises (processNodeForWrite cfg data s) = promises s"
  "started (processNodeForWrite cfg data s) = started s"
  "console (processNodeForWrite cfg data s) = console s"
  "waitAllCalled (processNodeForWrite cfg data s) = waitAllCalled s"
  by (simp_all add: processNodeForWrite_def Let_def split: sum.splits prod.splits)

lemma processContentNode_fields [simp]:
  "promises (processContentNode cfg m n s) = promises s"
  "started (processContentNode cfg m n s) = started s"
  "waitAllCalled (processContentNode cfg m n s) = waitAllCalled s"
  by (simp_all add: processContentNode_def Let_def split: sum.splits Mode.splits)

lemma workerEvent_alt:
  "workerEvent k ev s =
     (if k < length (promises s) \<and> promise (promises s ! k) = Pending then
        (case workerSettles (mode (workerData (promises s ! k))) ev of
           Fulfilled \<Rightarrow> settled k (snd (thenCallback s)) (fst (thenCallback s))
         | Rejected e \<Rightarrow> settled k (Rejected e) s
         | Pending \<Rightarrow> s)
      else s)"
  by (simp add: workerEvent_def case_prod_beta split: promise.splits)

lemma startedInv_dispatchFrame:
  assumes "startedInv cfg c s"
  shows "startedInv cfg c (dispatchFrame cfg m c f s)"
proof (cases "c \<and> worker_threads cfg")
  case False
  then show ?thesis by (auto simp: startedInv_def)
next
  case True
  with assms have eq: "map workerData (promises s) = started s" by (simp add: startedInv_def)
  have "map workerData (promises (dispatchFrame cfg m c f s)) = started (dispatchFrame cfg m c f s)"
  proof (cases f)
    case (ForNodes ns)
    then show ?thesis using eq by (cases ns) (simp_all add: waitAll_def)
  next
    case (ForVersions d src ns)
    then show ?thesis using eq by (cases ns) (simp_all add: Let_def)
  next
    case (ProcessNode d)
    then show ?thesis using eq True
      by (simp add: processNode_def addWork_def startWorker_def Let_def)
  next
    case (AwaitDeferred d k)
    then show ?thesis using eq
      by (simp add: addWorkResumed_def startWorker_def)
  next
    case (WriteVersion vf)
    then show ?thesis using eq by (simp split: sum.splits)
  qed
  then show ?thesis using True by (auto simp: startedInv_def)
qed

lemma settled_promises:
  "promises (settled k p s) = (promises s)[k := (promises s ! k)\<lparr>promise := p\<rparr>]"
  by (cases p) (simp_all add: settled_def Let_def)

lemma map_workerData_update:
  "map workerData (js[k := (js ! k)\<lparr>promise := p\<rparr>]) = map workerData js"
  by (cases "k < length js") (simp_all add: map_update list_update_same_conv list_update_beyond)

lemma startedInv_workerEvent:
  "startedInv cfg c s \<Longrightarrow> startedInv cfg c (workerEvent k ev s)"
  by (auto simp: startedInv_def workerEvent_alt settled_promises map_workerData_update
        split: promise.splits)

lemma startedInv_step: "startedInv cfg c s \<Longrightarrow> startedInv cfg c (step cfg m c t s)"
proof (cases t)
  case Dispatch
  assume a: "startedInv cfg c s"
  show ?thesis
  proof (cases "stack s")
    case Nil
    with a Dispatch show ?thesis by (simp add: dispatch_def)
  next
    case (Cons f r)
    from a have "startedInv cfg c (s\<lparr>stack := r\<rparr>)" by (simp add: startedInv_def)
    from startedInv_dispatchFrame [OF this] Cons Dispatch show ?thesis
      by (simp add: dispatch_def)
  qed
next
  case (Worker k ev)
  assume "startedInv cfg c s"
  with Worker show ?thesis by (simp add: startedInv_workerEvent)
qed

lemma startedInv_run: "startedInv cfg c s \<Longrightarrow> startedInv cfg c (run cfg m c ts s)"
  unfolding run_def by (induction ts arbitrary: s) (simp_all add: startedInv_step)

lemma startedInv_processContent: "startedInv cfg c (processContent cfg fs0)"
  by (auto simp: processContent_def Let_def startedInv_def reject_def split: sum.splits)

lemma thenCallback_Fulfilled:
  assumes "gateInv s"
  shows "snd (thenCallback s) = Fulfilled"
proof (cases "deferred s")
  case None
  then show ?thesis by (simp add: thenCallback_def Let_def)
next
  case (Some d)
  with assms have "gate (limit s) (Some d) (deferreds s) (stack s) (length (states s))
       (count_list (states s) Fulfilled)"
    by (simp add: gateInv_def)
  from gate_resolve [OF this] Some show ?thesis
    by (simp add: thenCallback_def Let_def)
qed

lemma workerEvent_settles:
  assumes "gateInv s" "k < length (promises s)" "promise (promises s ! k) = Pending"
  shows "promises (workerEvent k ev s) =
           (promises s)[k := (promises s ! k)
              \<lparr>promise := workerSettles (mode (workerData (promises s ! k))) ev\<rparr>]"
proof (cases "workerSettles (mode (workerData (promises s ! k))) ev")
  case Pending
  then show ?thesis by simp
next
  case Fulfilled
  obtain s1 p where cb: "thenCallback s = (s1, p)" by (cases "thenCallback s")
  with thenCallback_Fulfilled [OF assms(1)] have p: "p = Fulfilled" by simp
  from cb have "promises s1 = promises s" using thenCallback_fields(4) [of s] by simp
  then show ?thesis using assms Fulfilled cb p
    by (simp add: workerEvent_def settled_promises)
next
  case (Rejected e)
  then show ?thesis using assms by (simp add: workerEvent_def settled_promises)
qed

lemma result_stable:
  assumes "allInv s" "result s \<noteq> Pending"
  shows "result (step cfg m c t s) = result s"
proof (cases t)
  case Dispatch
  from assms have "stack s = []" by (simp add: allInv_def)
  with Dispatch show ?thesis by (simp add: dispatch_def)
next
  case (Worker k ev)
  then show ?thesis using assms(2)
    by (auto simp: workerEvent_alt settled_result split: promise.splits)
qed

lemma firstRejected_first:
  "i < length js \<Longrightarrow> promise (js ! i) = Rejected e \<Longrightarrow>
   (\<forall>j < i. \<forall>e'. promise (js ! j) \<noteq> Rejected e') \<Longrightarrow> firstRejected js = Some e"
proof (induction js arbitrary: i)
  case Nil
  then show ?case by simp
next
  case (Cons j js)
  show ?case
  proof (cases i)
    case 0
    with Cons.prems show ?thesis by simp
  next
    case (Suc i')
    from Cons.prems(3) Suc have h: "\<forall>e'. promise j \<noteq> Rejected e'" by auto
    have "\<forall>k < i'. \<forall>e'. promise (js ! k) \<noteq> Rejected e'"
      using Cons.prems(3) Suc by auto
    with Cons.IH [of i'] Cons.prems(1,2) Suc have "firstRejected js = Some e" by simp
    with h show ?thesis by (cases "promise j") auto
  qed
qed

lemma waitAll_called:
  assumes "stack s = [ForNodes []]"
  shows "waitAllCalled (step cfg m c Dispatch s)"
    and "i < length (promises s) \<Longrightarrow> promise (promises s ! i) = Rejected e \<Longrightarrow>
         (\<forall>j < i. \<forall>e'. promise (promises s ! j) \<noteq> Rejected e') \<Longrightarrow>
         result (step cfg m c Dispatch s) = Rejected e"
    and "(\<forall>j \<in> set (promises s). \<forall>e. promise j \<noteq> Rejected e) \<Longrightarrow>
         result (step cfg m c Dispatch s) =
           (if \<forall>j \<in> set (promises s). promise j = Fulfilled then Fulfilled else Pending)"
proof -
  have d: "step cfg m c Dispatch s = waitAll (s\<lparr>stack := []\<rparr>)"
    using assms by (simp add: dispatch_def)
  show "waitAllCalled (step cfg m c Dispatch s)" unfolding d by (simp add: waitAll_def)
  show "result (step cfg m c Dispatch s) = Rejected e"
    if "i < length (promises s)" "promise (promises s ! i) = Rejected e"
      "\<forall>j < i. \<forall>e'. promise (promises s ! j) \<noteq> Rejected e'"
    using firstRejected_first [OF that] unfolding d by (simp add: waitAll_def)
  show "result (step cfg m c Dispatch s) =
           (if \<forall>j \<in> set (promises s). promise j = Fulfilled then Fulfilled else Pending)"
    if "\<forall>j \<in> set (promises s). \<forall>e. promise j \<noteq> Rejected e"
  proof -
    from that have "firstRejected (promises s) = None"
      by (simp add: firstRejected_None)
    then show ?thesis unfolding d by (simp add: waitAll_def list_all_iff)
  qed
qed

lemma rejection_surfaces:
  assumes "waitAllCalled s" "result s = Pending"
    and "k < length (promises s)" "promise (promises s ! k) = Pending"
    and "promise (promises (step cfg m c (Worker k ev) s) ! k) = Rejected e"
  shows "result (step cfg m c (Worker k ev) s) = Rejected e"
proof (cases "workerSettles (mode (workerData (promises s ! k))) ev")
  case Pending
  with assms show ?thesis by (simp add: workerEvent_alt)
next
  case Fulfilled
  let ?s1 = "fst (thenCallback s)" and ?p = "snd (thenCallback s)"
  from Fulfilled assms(3,4) have w: "workerEvent k ev s = settled k ?p ?s1"
    by (simp add: workerEvent_alt)
  with assms(3,5) have "?p = Rejected e" by (simp add: settled_promises)
  with assms(1,2) show ?thesis by (simp add: w settled_result)
next
  case (Rejected e0)
  with assms(3,4) have w: "workerEvent k ev s = settled k (Rejected e0) s"
    by (simp add: workerEvent_alt)
  with assms(3,5) have "e0 = e" by (simp add: settled_promises)
  with assms(1,2) show ?thesis by (simp add: w settled_result)
qed

lemma shape_top:
  assumes "shape st" "st = ForNodes ns # r"
  shows "r = []"
proof -
  from assms obtain top ms where t: "st = top @ [ForNodes ms]" "\<forall>f \<in> set top. \<not> isForNodes f"
    by (auto simp: shape_def)
  show ?thesis
  proof (cases top)
    case Nil
    with t assms(2) show ?thesis by simp
  next
    case (Cons f top')
    with t assms(2) have "f = ForNodes ns" by simp
    with t(2) Cons show ?thesis by simp
  qed
qed

lemma waitAll_call_site:
  assumes "allInv s" "\<not> waitAllCalled s" "waitAllCalled (step cfg m c t s)"
  shows "t = Dispatch \<and> stack s = [ForNodes []]"
proof (cases t)
  case (Worker k ev)
  with assms(2,3) show ?thesis
    by (auto simp: workerEvent_alt split: promise.splits if_splits)
next
  case Dispatch
  show ?thesis
  proof (cases "stack s")
    case Nil
    with Dispatch assms(2,3) show ?thesis by (simp add: dispatch_def)
  next
    case (Cons f r)
    with Dispatch have d: "step cfg m c t s = dispatchFrame cfg m c f (s\<lparr>stack := r\<rparr>)"
      by (simp add: dispatch_def)
    have "f = ForNodes []"
    proof (rule ccontr)
      assume "f \<noteq> ForNodes []"
      from dispatchFrame_outcome [OF this, of cfg m c "s\<lparr>stack := r\<rparr>"] assms(2,3) d
      show False by simp
    qed
    moreover from assms(1) have "shape (stack s)" by (simp add: allInv_def)
    ultimately have "r = []" using shape_top [of "stack s" "[]" r] Cons by simp
    with \<open>f = ForNodes []\<close> Cons Dispatch show ?thesis by simp
  qed
qed

text \<open>
  Claim C2, as amended. In every run, \<^verbatim>\<open>waitAll\<close>'s promise is fulfilled only when
  \<^verbatim>\<open>waitAll\<close> was called and every promise of the limiter is fulfilled. Once it was called,
  it is rejected as soon as one of them is rejected, with the error of a rejected job, and
  while it is pending none of them is rejected: it does not wait for the jobs still
  running. Once settled it never changes. No job is cancelled: whatever the state of
  \<^verbatim>\<open>waitAll\<close>'s promise, a pending job's promise settles as its worker's next event says.
  With worker threads, the limiter holds exactly one promise for each job started, in the
  order they started. Which rejection it surfaces: \<^verbatim>\<open>waitAll\<close> is called by the step of the
  dispatcher that ends the loop of \<^verbatim>\<open>processContent\<close> and by no other; at that call, if
  promises are rejected already, it is rejected with the error of the first of them in
  the order of the limiter's list, whichever failed first in time, and otherwise it is
  fulfilled if all are fulfilled and pending if not; while it is pending, the first
  promise that is rejected rejects it with its error.
\<close>

theorem waitAll_settles:
  "let s = run cfg m c turns (processContent cfg fs0) in
     (result s = Fulfilled \<longrightarrow>
        waitAllCalled s \<and> (\<forall>j \<in> set (promises s). promise j = Fulfilled))
   \<and> (waitAllCalled s \<longrightarrow> (\<exists>j \<in> set (promises s). \<exists>e. promise j = Rejected e) \<longrightarrow>
        (\<exists>e. result s = Rejected e \<and> (\<exists>j \<in> set (promises s). promise j = Rejected e)))
   \<and> (waitAllCalled s \<longrightarrow> result s = Pending \<longrightarrow>
        (\<forall>j \<in> set (promises s). \<forall>e. promise j \<noteq> Rejected e))
   \<and> (\<forall>t. result s \<noteq> Pending \<longrightarrow> result (step cfg m c t s) = result s)
   \<and> (\<forall>k ev. k < length (promises s) \<longrightarrow> promise (promises s ! k) = Pending \<longrightarrow>
        promise (promises (step cfg m c (Worker k ev) s) ! k) =
          workerSettles (mode (workerData (promises s ! k))) ev)
   \<and> (c \<and> worker_threads cfg \<longrightarrow> map workerData (promises s) = started s)
   \<and> (\<forall>t. \<not> waitAllCalled s \<longrightarrow> waitAllCalled (step cfg m c t s) \<longrightarrow>
        t = Dispatch \<and> stack s = [ForNodes []])
   \<and> (stack s = [ForNodes []] \<longrightarrow>
        waitAllCalled (step cfg m c Dispatch s)
      \<and> (\<forall>i e. i < length (promises s) \<longrightarrow> promise (promises s ! i) = Rejected e \<longrightarrow>
            (\<forall>j < i. \<forall>e'. promise (promises s ! j) \<noteq> Rejected e') \<longrightarrow>
            result (step cfg m c Dispatch s) = Rejected e)
      \<and> ((\<forall>j \<in> set (promises s). \<forall>e. promise j \<noteq> Rejected e) \<longrightarrow>
            result (step cfg m c Dispatch s) =
              (if \<forall>j \<in> set (promises s). promise j = Fulfilled then Fulfilled else Pending)))
   \<and> (waitAllCalled s \<longrightarrow> result s = Pending \<longrightarrow>
        (\<forall>k ev e. k < length (promises s) \<longrightarrow> promise (promises s ! k) = Pending \<longrightarrow>
           promise (promises (step cfg m c (Worker k ev) s) ! k) = Rejected e \<longrightarrow>
           result (step cfg m c (Worker k ev) s) = Rejected e))"
proof -
  define s where "s = run cfg m c turns (processContent cfg fs0)"
  have a: "allInv s" unfolding s_def by (rule allInv_run [OF allInv_processContent])
  have g: "gateInv s" unfolding s_def by (rule gateInv_run [OF gateInv_processContent])
  have st: "startedInv cfg c s" unfolding s_def by (rule startedInv_run [OF startedInv_processContent])
  have idx: "(\<forall>i < length (states s). P (states s ! i)) \<longleftrightarrow> (\<forall>j \<in> set (promises s). P (promise j))" for P
    by (auto simp: states_def all_set_conv_all_nth)
  have idx': "(\<exists>i < length (states s). P (states s ! i)) \<longleftrightarrow> (\<exists>j \<in> set (promises s). P (promise j))" for P
    using idx [of "\<lambda>p. \<not> P p"] by blast
  have 1: "result s = Fulfilled \<longrightarrow> waitAllCalled s \<and> (\<forall>j \<in> set (promises s). promise j = Fulfilled)"
    using a idx [of "\<lambda>p. p = Fulfilled"] unfolding allInv_def by auto
  have 3: "waitAllCalled s \<longrightarrow> result s = Pending \<longrightarrow>
        (\<forall>j \<in> set (promises s). \<forall>e. promise j \<noteq> Rejected e)"
    using a idx [of "\<lambda>p. \<forall>e. p \<noteq> Rejected e"] unfolding allInv_def by auto
  have 2: "waitAllCalled s \<longrightarrow> (\<exists>j \<in> set (promises s). \<exists>e. promise j = Rejected e) \<longrightarrow>
        (\<exists>e. result s = Rejected e \<and> (\<exists>j \<in> set (promises s). promise j = Rejected e))"
  proof (intro impI)
    assume w: "waitAllCalled s" and r: "\<exists>j \<in> set (promises s). \<exists>e. promise j = Rejected e"
    from r 1 3 w obtain e where e: "result s = Rejected e" by (cases "result s") auto
    with a w have "\<exists>i < length (states s). states s ! i = Rejected e" by (simp add: allInv_def)
    with idx' [of "\<lambda>p. p = Rejected e"] e
    show "\<exists>e. result s = Rejected e \<and> (\<exists>j \<in> set (promises s). promise j = Rejected e)" by blast
  qed
  have 4: "\<forall>t. result s \<noteq> Pending \<longrightarrow> result (step cfg m c t s) = result s"
    using result_stable [OF a] by blast
  have 5: "\<forall>k ev. k < length (promises s) \<longrightarrow> promise (promises s ! k) = Pending \<longrightarrow>
        promise (promises (step cfg m c (Worker k ev) s) ! k) =
          workerSettles (mode (workerData (promises s ! k))) ev"
    using workerEvent_settles [OF g] by simp
  have 6: "c \<and> worker_threads cfg \<longrightarrow> map workerData (promises s) = started s"
    using st by (simp add: startedInv_def)
  have 7: "\<forall>t. \<not> waitAllCalled s \<longrightarrow> waitAllCalled (step cfg m c t s) \<longrightarrow>
        t = Dispatch \<and> stack s = [ForNodes []]"
    using waitAll_call_site [OF a] by blast
  have 8: "stack s = [ForNodes []] \<longrightarrow>
        waitAllCalled (step cfg m c Dispatch s)
      \<and> (\<forall>i e. i < length (promises s) \<longrightarrow> promise (promises s ! i) = Rejected e \<longrightarrow>
            (\<forall>j < i. \<forall>e'. promise (promises s ! j) \<noteq> Rejected e') \<longrightarrow>
            result (step cfg m c Dispatch s) = Rejected e)
      \<and> ((\<forall>j \<in> set (promises s). \<forall>e. promise j \<noteq> Rejected e) \<longrightarrow>
            result (step cfg m c Dispatch s) =
              (if \<forall>j \<in> set (promises s). promise j = Fulfilled then Fulfilled else Pending))"
    using waitAll_called [where s = s and cfg = cfg and m = m and c = c] by blast
  have 9: "waitAllCalled s \<longrightarrow> result s = Pending \<longrightarrow>
        (\<forall>k ev e. k < length (promises s) \<longrightarrow> promise (promises s ! k) = Pending \<longrightarrow>
           promise (promises (step cfg m c (Worker k ev) s) ! k) = Rejected e \<longrightarrow>
           result (step cfg m c (Worker k ev) s) = Rejected e)"
    using rejection_surfaces [where s = s and cfg = cfg and m = m and c = c] by blast
  from 1 2 3 4 5 6 7 8 9 show ?thesis unfolding s_def [symmetric] Let_def by (intro conjI)
qed

section \<open>The log, and the errors of the file system\<close>

lemma console_stack_commute:
  "s\<lparr>console := x, stack := st\<rparr> = (s\<lparr>stack := st, console := x\<rparr> :: state)"
  by (cases s) simp

lemma withoutConsole_idem [simp]: "withoutConsole (withoutConsole s) = withoutConsole s"
  by (simp add: withoutConsole_def)

lemma withoutConsole_reject: "withoutConsole (reject e s) = reject e (withoutConsole s)"
  by (simp add: withoutConsole_def reject_def)

lemma wc_processNodeForValidate:
  "withoutConsole (processNodeForValidate d s) = withoutConsole (processNodeForValidate d (withoutConsole s))"
  by (simp add: processNodeForValidate_def withoutConsole_def reject_def Let_def split: sum.splits)

lemma wc_processNodeForWrite:
  "withoutConsole (processNodeForWrite cfg d s) = withoutConsole (processNodeForWrite cfg d (withoutConsole s))"
  by (simp add: processNodeForWrite_def withoutConsole_def reject_def Let_def split: sum.splits prod.splits)

lemma wc_processContentNode:
  "withoutConsole (processContentNode cfg m n s) = withoutConsole (processContentNode cfg m n (withoutConsole s))"
proof (cases "isDirectory n \<and> existsSync (files s) (fileLocation cfg @ [name n, ''messages.json''])")
  case False
  then show ?thesis
    by (auto simp: processContentNode_def withoutConsole_def Let_def)
next
  case True
  show ?thesis
  proof (cases "cleanFailedSnapshots (files s) (fileLocation cfg @ [name n])")
    case (Inl thrown)
    with True show ?thesis
      by (cases thrown) (simp add: processContentNode_def withoutConsole_def Let_def reject_def)
  next
    case (Inr fs')
    have f: "files (withoutConsole s) = files s" by (simp add: withoutConsole_def)
    have u: "(withoutConsole s)\<lparr>files := fs'\<rparr> = withoutConsole (s\<lparr>files := fs'\<rparr>)"
      by (simp add: withoutConsole_def)
    have st: "stack (withoutConsole t) = stack t" for t by (simp add: withoutConsole_def)
    have p: "withoutConsole (t\<lparr>stack := x\<rparr>) = (withoutConsole t)\<lparr>stack := x\<rparr>" for t x
      by (simp add: withoutConsole_def)
    show ?thesis
      using True Inr
        wc_processNodeForValidate [of _ "s\<lparr>files := fs'\<rparr>"]
        wc_processNodeForWrite [of cfg _ "s\<lparr>files := fs'\<rparr>"]
      by (cases m) (simp_all add: processContentNode_def Let_def f u st p)
  qed
qed

lemma wc_processNode:
  "withoutConsole (processNode cfg c d s) = withoutConsole (processNode cfg c d (withoutConsole s))"
proof (cases "\<not> c \<or> \<not> worker_threads cfg")
  case True
  obtain errs fs' where g: "Go cfg \<lparr>verbose = False, inDirName = folder d,
             outDirName = folder d @ [''current_snapshots''],
             replaySnapFreq = snapFreq d, write' = (mode d = Write),
             compare = (mode d = Compare), expandFiles = (mode d = Stress),
             replayInitializeFromSnapshotsDir = initializeFromSnapshotsDir d\<rparr> (files s) = (errs, fs')"
    by (cases "Go cfg \<lparr>verbose = False, inDirName = folder d,
             outDirName = folder d @ [''current_snapshots''],
             replaySnapFreq = snapFreq d, write' = (mode d = Write),
             compare = (mode d = Compare), expandFiles = (mode d = Stress),
             replayInitializeFromSnapshotsDir = initializeFromSnapshotsDir d\<rparr> (files s)")
  show ?thesis using True g
    by (cases errs)
       (simp_all add: processNode_def processOneFile_def withoutConsole_def reject_def Let_def)
next
  case False
  then show ?thesis
    by (simp add: processNode_def addWork_def startWorker_def withoutConsole_def reject_def Let_def)
qed

lemma wc_dispatch:
  "withoutConsole (dispatch cfg m c s) = withoutConsole (dispatch cfg m c (withoutConsole s))"
proof (cases "stack s")
  case Nil
  then show ?thesis by (simp add: dispatch_def withoutConsole_def)
next
  case (Cons f r)
  have sw: "stack (withoutConsole s) = stack s" by (simp add: withoutConsole_def)
  have comm: "(withoutConsole s)\<lparr>stack := st\<rparr> = withoutConsole (s\<lparr>stack := st\<rparr>)" for st
    by (simp add: withoutConsole_def)
  show ?thesis
  proof (cases f)
    case (ForNodes ns)
    show ?thesis
    proof (cases ns)
      case Nil
      then show ?thesis using Cons ForNodes
        by (simp add: dispatch_def withoutConsole_def waitAll_def)
    next
      case (Cons n ns')
      from wc_processContentNode [of cfg m n "s\<lparr>stack := ForNodes ns' # r\<rparr>"]
      show ?thesis using \<open>stack s = f # r\<close> ForNodes Cons
        by (simp add: dispatch_def withoutConsole_def console_stack_commute)
    qed
  next
    case (ForVersions d src ns)
    then show ?thesis using Cons
      by (cases ns) (simp_all add: dispatch_def withoutConsole_def Let_def)
  next
    case (ProcessNode d)
    from wc_processNode [of cfg c d "s\<lparr>stack := r\<rparr>"]
    show ?thesis using Cons ProcessNode
      by (simp add: dispatch_def withoutConsole_def console_stack_commute)
  next
    case (AwaitDeferred d k)
    then show ?thesis using Cons
      by (simp add: dispatch_def withoutConsole_def addWorkResumed_def startWorker_def reject_def)
  next
    case (WriteVersion vf)
    then show ?thesis using Cons
      by (simp add: dispatch_def withoutConsole_def reject_def split: sum.splits)
  qed
qed

lemma wc_settled: "settled k p (withoutConsole s) = withoutConsole (settled k p s)"
  by (cases p) (simp_all add: settled_def withoutConsole_def Let_def)

lemma wc_thenCallback:
  "fst (thenCallback (withoutConsole s)) = withoutConsole (fst (thenCallback s))"
  "snd (thenCallback (withoutConsole s)) = snd (thenCallback s)"
  by (simp_all add: thenCallback_def withoutConsole_def Let_def split: option.splits)

lemma wc_workerEvent:
  "withoutConsole (workerEvent k ev s) = withoutConsole (workerEvent k ev (withoutConsole s))"
proof -
  have p: "promises (withoutConsole s) = promises s" by (simp add: withoutConsole_def)
  have "workerEvent k ev (withoutConsole s) = withoutConsole (workerEvent k ev s)"
    unfolding workerEvent_alt p
    by (cases "workerSettles (mode (workerData (promises s ! k))) ev")
       (simp_all add: wc_settled wc_thenCallback)
  then show ?thesis by simp
qed

lemma wc_step:
  "withoutConsole (step cfg m c t s) = withoutConsole (step cfg m c t (withoutConsole s))"
  using wc_dispatch [of cfg m c s] wc_workerEvent [of _ _ s] by (cases t) simp_all

lemma wc_run:
  "withoutConsole s = withoutConsole s' \<Longrightarrow>
   withoutConsole (run cfg m c ts s) = withoutConsole (run cfg m c ts s')"
proof (induction ts arbitrary: s s')
  case Nil
  then show ?case by (simp add: run_def)
next
  case (Cons t ts)
  have "withoutConsole (step cfg m c t s) = withoutConsole (step cfg m c t s')"
    using Cons.prems wc_step [of cfg m c t s] wc_step [of cfg m c t s'] by simp
  from Cons.IH [OF this] show ?case by (simp add: run_def)
qed

lemma putNode_error: "putNode p new fs = Inl e \<Longrightarrow> \<exists>c. e = SystemError c"
  by (induction p new fs rule: putNode.induct) (auto split: option.splits sum.splits)

lemma mkdirSync_error: "mkdirSync p fs = Inl e \<Longrightarrow> \<exists>c. e = SystemError c"
  by (induction p fs rule: mkdirSync.induct) (auto split: option.splits sum.splits)

lemma readFileSync_error: "readFileSync fs p = Inl e \<Longrightarrow> \<exists>c. e = SystemError c"
  by (auto simp: readFileSync_def split: option.splits node.splits)

lemma readdirSync_error: "readdirSync fs p = Inl e \<Longrightarrow> \<exists>c. e = SystemError c"
  by (auto simp: readdirSync_def split: option.splits node.splits)

lemma writeFileSync_error: "writeFileSync fs p x = Inl e \<Longrightarrow> \<exists>c. e = SystemError c"
  by (auto simp: writeFileSync_def split: option.splits node.splits dest: putNode_error)

lemma copyFileSync_error: "copyFileSync fs p q = Inl e \<Longrightarrow> \<exists>c. e = SystemError c"
  by (auto simp: copyFileSync_def split: sum.splits dest: readFileSync_error writeFileSync_error)

lemma copyFiles_error:
  "copyFiles cur new ns fs = Inl (e, fs') \<Longrightarrow>
   e = AssertionError NotADirectory \<or> (\<exists>c. e = SystemError c)"
  by (induction cur new ns fs rule: copyFiles.induct)
     (auto split: if_splits sum.splits dest: copyFileSync_error)

lemma mkdirPath_error: "mkdirPath dir xs fs = Inl (e, fs') \<Longrightarrow> \<exists>c. e = SystemError c"
  by (induction dir xs fs rule: mkdirPath.induct)
     (auto split: if_splits option.splits node.splits sum.splits dest: mkdirSync_error)

lemma moveCurrentSnapshots_error:
  assumes "moveCurrentSnapshots cfg data fs = Inl (e, fs')"
    and "existsSync fs (folder data @ [''current_snapshots''])"
    and "existsSync fs (folder data @ [''current_snapshots'', ''snapshotVersion.json''])"
  shows "e = SyntaxError \<or> e = AssertionError NotADirectory \<or> (\<exists>c. e = SystemError c)"
  using assms
  by (auto simp: moveCurrentSnapshots_def Let_def simp del: mkdirPath.simps
      split: sum.splits option.splits prod.splits
      dest: readFileSync_error mkdirPath_error readdirSync_error copyFiles_error)

lemma stopped_step:
  "stack s = [] \<Longrightarrow> stack (step cfg m c t s) = [] \<and> started (step cfg m c t s) = started s"
  by (cases t) (auto simp: dispatch_def workerEvent_alt split: promise.splits)

lemma stopped_run:
  "stack s = [] \<Longrightarrow> stack (run cfg m c ts s) = [] \<and> started (run cfg m c ts s) = started s"
proof (induction ts arbitrary: s)
  case Nil
  then show ?case by (simp add: run_def)
next
  case (Cons t ts)
  from stopped_step [OF Cons.prems, of cfg m c t] Cons.IH [of "step cfg m c t s"]
  show ?case by (simp add: run_def)
qed

text \<open>
  Claim C9. In Write mode, \<^verbatim>\<open>processNodeForWrite\<close> fails the assertion of line 204 when
  the folder has no \<^verbatim>\<open>current_snapshots\<close>, and the assertion of line 207 when that exists
  and the version file does not, in both cases with the files untouched. A failure of
  this part rejects the run: nothing of the dispatcher is left, and no job is started
  afterwards. When both exist, neither of the two assertions fails.
\<close>

theorem write_preconditions:
  "let currentSnapshotsDir = folder data @ [''current_snapshots''];
       versionFileName = currentSnapshotsDir @ [''snapshotVersion.json'']
   in (\<not> existsSync (files s) currentSnapshotsDir \<longrightarrow>
         moveCurrentSnapshots cfg data (files s)
           = Inl (AssertionError (DirectoryExists currentSnapshotsDir), files s))
    \<and> (existsSync (files s) currentSnapshotsDir \<longrightarrow> \<not> existsSync (files s) versionFileName \<longrightarrow>
         moveCurrentSnapshots cfg data (files s)
           = Inl (AssertionError (VersionFileExists versionFileName), files s))
    \<and> (\<forall>e fs'. moveCurrentSnapshots cfg data (files s) = Inl (e, fs') \<longrightarrow>
         processNodeForWrite cfg data s = reject e (s\<lparr>files := fs'\<rparr>)
         \<and> result (processNodeForWrite cfg data s) = Rejected e
         \<and> (\<forall>turns. stack (run cfg m c turns (processNodeForWrite cfg data s)) = []
                   \<and> started (run cfg m c turns (processNodeForWrite cfg data s)) = started s))
    \<and> (existsSync (files s) currentSnapshotsDir \<longrightarrow> existsSync (files s) versionFileName \<longrightarrow>
         (\<forall>p fs'.
              moveCurrentSnapshots cfg data (files s) \<noteq> Inl (AssertionError (DirectoryExists p), fs')
            \<and> moveCurrentSnapshots cfg data (files s) \<noteq> Inl (AssertionError (VersionFileExists p), fs')))"
proof -
  define cur where "cur = folder data @ [''current_snapshots'']"
  define vf where "vf = cur @ [''snapshotVersion.json'']"
  have vf: "vf = folder data @ [''current_snapshots'', ''snapshotVersion.json'']"
    by (simp add: vf_def cur_def)
  have 1: "\<not> existsSync (files s) cur \<longrightarrow>
         moveCurrentSnapshots cfg data (files s) = Inl (AssertionError (DirectoryExists cur), files s)"
    by (simp add: moveCurrentSnapshots_def cur_def)
  have 2: "existsSync (files s) cur \<longrightarrow> \<not> existsSync (files s) vf \<longrightarrow>
         moveCurrentSnapshots cfg data (files s) = Inl (AssertionError (VersionFileExists vf), files s)"
    by (simp add: moveCurrentSnapshots_def cur_def vf)
  have 3: "\<forall>e fs'. moveCurrentSnapshots cfg data (files s) = Inl (e, fs') \<longrightarrow>
         processNodeForWrite cfg data s = reject e (s\<lparr>files := fs'\<rparr>)
         \<and> result (processNodeForWrite cfg data s) = Rejected e
         \<and> (\<forall>turns. stack (run cfg m c turns (processNodeForWrite cfg data s)) = []
                   \<and> started (run cfg m c turns (processNodeForWrite cfg data s)) = started s)"
  proof (intro allI impI)
    fix e fs' assume "moveCurrentSnapshots cfg data (files s) = Inl (e, fs')"
    then have r: "processNodeForWrite cfg data s = reject e (s\<lparr>files := fs'\<rparr>)"
      by (simp add: processNodeForWrite_def)
    have "stack (reject e (s\<lparr>files := fs'\<rparr>)) = []" by simp
    from stopped_run [OF this, of cfg m c] r
    show "processNodeForWrite cfg data s = reject e (s\<lparr>files := fs'\<rparr>)
         \<and> result (processNodeForWrite cfg data s) = Rejected e
         \<and> (\<forall>turns. stack (run cfg m c turns (processNodeForWrite cfg data s)) = []
                   \<and> started (run cfg m c turns (processNodeForWrite cfg data s)) = started s)"
      by simp
  qed
  have 4: "existsSync (files s) cur \<longrightarrow> existsSync (files s) vf \<longrightarrow>
         (\<forall>p fs'.
              moveCurrentSnapshots cfg data (files s) \<noteq> Inl (AssertionError (DirectoryExists p), fs')
            \<and> moveCurrentSnapshots cfg data (files s) \<noteq> Inl (AssertionError (VersionFileExists p), fs'))"
    using moveCurrentSnapshots_error [of cfg data "files s"] unfolding cur_def vf by auto
  from 1 2 3 4 show ?thesis
    unfolding Let_def cur_def [symmetric] vf_def [symmetric] by (intro conjI)
qed

text \<open>
  Claim C8. In every mode, when the dispatcher comes to a folder without
  \<^verbatim>\<open>messages.json\<close>, its step logs the missing file and moves on to the next entry: no
  job, no error, nothing else changes. From there on the run is, the log aside, the run
  of a dispatcher that never had this entry in its list, so the outcome is the same.
\<close>

theorem missing_log_skipped:
  assumes "stack s = ForNodes (node # nodes) # r" and "isDirectory node"
    and "\<not> existsSync (files s) (fileLocation cfg @ [name node, ''messages.json''])"
  shows "step cfg m c Dispatch s =
           s\<lparr>stack := ForNodes nodes # r,
             console := console s @ [CantLocate (fileLocation cfg @ [name node, ''messages.json''])]\<rparr>
       \<and> (\<forall>turns. withoutConsole (run cfg m c turns (step cfg m c Dispatch s)) =
                   withoutConsole (run cfg m c turns (s\<lparr>stack := ForNodes nodes # r\<rparr>)))"
proof -
  have eq: "step cfg m c Dispatch s =
           s\<lparr>stack := ForNodes nodes # r,
             console := console s @ [CantLocate (fileLocation cfg @ [name node, ''messages.json''])]\<rparr>"
    using assms by (simp add: dispatch_def processContentNode_def Let_def)
  have "withoutConsole (step cfg m c Dispatch s) = withoutConsole (s\<lparr>stack := ForNodes nodes # r\<rparr>)"
    unfolding eq by (simp add: withoutConsole_def)
  from wc_run [OF this] eq show ?thesis by blast
qed

lemma workerEvent_rejected:
  assumes "k < length (promises s)" "promise (promises s ! k) = Pending"
    and "workerSettles (mode (workerData (promises s ! k))) ev = Rejected e"
  shows "stack (workerEvent k ev s) = stack s" "files (workerEvent k ev s) = files s"
    and "started (workerEvent k ev s) = started s"
    and "promises (workerEvent k ev s) = (promises s)[k := (promises s ! k)\<lparr>promise := Rejected e\<rparr>]"
  using assms by (simp_all add: workerEvent_alt settled_promises)

lemma inline_failure:
  assumes "\<not> (c \<and> worker_threads cfg)" "stack s = ProcessNode d # r"
    and "fst (processOneFile cfg d (s\<lparr>stack := r\<rparr>)) = Inl e"
  shows "result (dispatch cfg m c s) = Rejected e" "stack (dispatch cfg m c s) = []"
    and "started (dispatch cfg m c s) = started s @ [d]"
proof -
  obtain x s' where p: "processOneFile cfg d (s\<lparr>stack := r\<rparr>) = (x, s')"
    by (cases "processOneFile cfg d (s\<lparr>stack := r\<rparr>)")
  with assms(3) have x: "x = Inl e" by simp
  have d: "dispatch cfg m c s = reject e s'"
    using assms(1,2) p x by (auto simp: dispatch_def processNode_def)
  have "started s' = started s @ [d]"
    using p by (auto simp: processOneFile_def Let_def split: prod.splits sum.splits if_splits)
  with d show "result (dispatch cfg m c s) = Rejected e" "stack (dispatch cfg m c s) = []"
    "started (dispatch cfg m c s) = started s @ [d]" by simp_all
qed

text \<open>
  Claim C5, as amended. With worker threads, the failure of a job changes that job's
  promise and nothing of the dispatcher: its stack, the files and the jobs started are
  the same, and every other promise of the limiter is untouched. On the inline path the
  first job that fails rejects the run with its error at once, and whatever is scheduled
  afterwards, no further job is started. Once \<^verbatim>\<open>waitAll\<close> was called, the run is rejected
  if a job's promise is rejected.
\<close>

theorem failure_isolation:
  "let s = run cfg m c turns (processContent cfg fs0) in
     (\<forall>k ev e. k < length (promises s) \<longrightarrow> promise (promises s ! k) = Pending \<longrightarrow>
        workerSettles (mode (workerData (promises s ! k))) ev = Rejected e \<longrightarrow>
          stack (step cfg m c (Worker k ev) s) = stack s
        \<and> files (step cfg m c (Worker k ev) s) = files s
        \<and> started (step cfg m c (Worker k ev) s) = started s
        \<and> promises (step cfg m c (Worker k ev) s) =
            (promises s)[k := (promises s ! k)\<lparr>promise := Rejected e\<rparr>])
   \<and> (\<forall>d r e. \<not> (c \<and> worker_threads cfg) \<longrightarrow> stack s = ProcessNode d # r \<longrightarrow>
        fst (processOneFile cfg d (s\<lparr>stack := r\<rparr>)) = Inl e \<longrightarrow>
          result (step cfg m c Dispatch s) = Rejected e
        \<and> (\<forall>ts. stack (run cfg m c ts (step cfg m c Dispatch s)) = []
               \<and> started (run cfg m c ts (step cfg m c Dispatch s)) = started s @ [d]))
   \<and> (waitAllCalled s \<longrightarrow> (\<exists>j \<in> set (promises s). \<exists>e. promise j = Rejected e) \<longrightarrow>
        (\<exists>e. result s = Rejected e))"
proof -
  define s where "s = run cfg m c turns (processContent cfg fs0)"
  have a: "allInv s" unfolding s_def by (rule allInv_run [OF allInv_processContent])
  have 1: "\<forall>k ev e. k < length (promises s) \<longrightarrow> promise (promises s ! k) = Pending \<longrightarrow>
        workerSettles (mode (workerData (promises s ! k))) ev = Rejected e \<longrightarrow>
          stack (step cfg m c (Worker k ev) s) = stack s
        \<and> files (step cfg m c (Worker k ev) s) = files s
        \<and> started (step cfg m c (Worker k ev) s) = started s
        \<and> promises (step cfg m c (Worker k ev) s) =
            (promises s)[k := (promises s ! k)\<lparr>promise := Rejected e\<rparr>]"
    using workerEvent_rejected [of _ s] by simp
  have 2: "\<forall>d r e. \<not> (c \<and> worker_threads cfg) \<longrightarrow> stack s = ProcessNode d # r \<longrightarrow>
        fst (processOneFile cfg d (s\<lparr>stack := r\<rparr>)) = Inl e \<longrightarrow>
          result (step cfg m c Dispatch s) = Rejected e
        \<and> (\<forall>ts. stack (run cfg m c ts (step cfg m c Dispatch s)) = []
               \<and> started (run cfg m c ts (step cfg m c Dispatch s)) = started s @ [d])"
  proof (intro allI impI)
    fix d r e
    assume h: "\<not> (c \<and> worker_threads cfg)" "stack s = ProcessNode d # r"
      "fst (processOneFile cfg d (s\<lparr>stack := r\<rparr>)) = Inl e"
    note f = inline_failure [OF h, of m]
    from stopped_run [OF f(2), of cfg m c] f
    show "result (step cfg m c Dispatch s) = Rejected e
        \<and> (\<forall>ts. stack (run cfg m c ts (step cfg m c Dispatch s)) = []
               \<and> started (run cfg m c ts (step cfg m c Dispatch s)) = started s @ [d])"
      by simp
  qed
  have 3: "waitAllCalled s \<longrightarrow> (\<exists>j \<in> set (promises s). \<exists>e. promise j = Rejected e) \<longrightarrow>
        (\<exists>e. result s = Rejected e)"
  proof (intro impI)
    assume w: "waitAllCalled s" and "\<exists>j \<in> set (promises s). \<exists>e. promise j = Rejected e"
    then obtain i e where i: "i < length (states s)" "states s ! i = Rejected e"
      by (auto simp: states_def in_set_conv_nth)
    with a w show "\<exists>e. result s = Rejected e"
      unfolding allInv_def by (cases "result s") auto
  qed
  from 1 2 3 show ?thesis unfolding s_def [symmetric] Let_def by (intro conjI)
qed

section \<open>The archive of the current snapshots\<close>

lemma lookup_append:
  "lookup fs (p @ q) = (case lookup fs p of None \<Rightarrow> None | Some n \<Rightarrow> lookup n q)"
  by (induction fs p rule: lookup.induct) (auto split: option.splits)

lemma lookup_empty: "lookup (Dir []) p = (if p = [] then Some (Dir []) else None)"
  by (cases p) auto

lemma putNode_same:
  "putNode p new fs = Inr fs' \<Longrightarrow> lookup fs' (p @ q) = lookup new q"
  by (induction p new fs arbitrary: fs' rule: putNode.induct)
     (auto simp: AList.update_conv' split: option.splits sum.splits)

lemma putNode_other:
  "putNode (f @ a # p) new fs = Inr fs' \<Longrightarrow> a \<noteq> b \<Longrightarrow>
   lookup fs' (f @ b # q) = lookup fs (f @ b # q)"
proof (induction f arbitrary: fs fs')
  case Nil
  then show ?case
    by (cases fs; cases p) (auto simp: AList.update_conv' split: option.splits sum.splits)
next
  case (Cons x f)
  then show ?case
    by (cases fs; cases "f @ a # p") (auto simp: AList.update_conv' split: option.splits sum.splits)
qed

lemma mkdirSync_other:
  "mkdirSync (f @ a # p) fs = Inr fs' \<Longrightarrow> a \<noteq> b \<Longrightarrow>
   lookup fs' (f @ b # q) = lookup fs (f @ b # q)"
proof (induction f arbitrary: fs fs')
  case Nil
  then show ?case
    by (cases fs) (auto simp: AList.update_conv' split: option.splits sum.splits)
next
  case (Cons x f)
  then show ?case
    by (cases fs) (auto simp: AList.update_conv' lookup_empty split: option.splits sum.splits)
qed

lemma mkdirSync_dir:
  "mkdirSync p fs = Inr fs' \<Longrightarrow>
   \<exists>es. lookup fs' p = Some (Dir es) \<and>
        (lookup fs p = Some (Dir es) \<or> lookup fs p = None \<and> es = [])"
  by (induction p fs arbitrary: fs' rule: mkdirSync.induct)
     (auto simp: AList.update_conv' lookup_empty split: option.splits sum.splits if_splits)


lemma entryNames_Dir [simp]: "entryNames (Dir es) [] = map fst es"
  by (simp add: entryNames_def)


lemma entryNames_File [simp]: "entryNames (File c) p = []"
  by (cases p) (simp_all add: entryNames_def)

lemma entryNames_empty [simp]: "entryNames (Dir []) p = []"
  by (simp add: entryNames_def lookup_empty)




lemma putNode_parent:
  "putNode (q @ [x]) new fs = Inr fs' \<Longrightarrow>
   \<exists>es. lookup fs q = Some (Dir es) \<and> lookup fs' q = Some (Dir (AList.update x new es))"
proof (induction q arbitrary: fs fs')
  case Nil
  then show ?case by (cases fs) auto
next
  case (Cons y q)
  then show ?case
    by (cases fs; cases "q @ [x]")
       (auto simp: AList.update_conv' split: option.splits sum.splits)
qed









lemma copyFiles_files:
  "copyFiles cur new ns fs = Inr fs' \<Longrightarrow> \<forall>n \<in> set ns. \<not> isDirectory n"
  by (induction cur new ns fs rule: copyFiles.induct) (auto split: if_splits sum.splits)






lemma splitPath_noslash: "CHR ''/'' \<notin> set v \<Longrightarrow> splitPath v = [v]"
  by (induction v) auto

lemma splitPath_plain: "plainName v \<Longrightarrow> splitPath v = [v]"
  by (simp add: plainName_def splitPath_noslash)

lemma plainName_src [simp]: "plainName ''src_snapshots''"
  by (simp add: plainName_def)

lemma mkdirSync_below:
  assumes "mkdirSync p fs = Inr fs'" "q \<noteq> []"
  shows "lookup fs' (p @ q) = lookup fs (p @ q)"
  using mkdirSync_dir [OF assms(1)] assms(2)
  by (auto simp: lookup_append lookup_empty)


lemma wellFormed_lookup: "wellFormed fs \<Longrightarrow> lookup fs p = Some n \<Longrightarrow> wellFormed n"
  by (induction fs p rule: lookup.induct) (auto split: option.splits dest: map_of_SomeD)





lemma mkdirSync_again:
  "mkdirSync p fs = Inr f1 \<Longrightarrow> mkdirSync (p @ q) f1 = mkdirSync (p @ q) fs"
proof (induction p arbitrary: fs f1)
  case Nil
  then show ?case by (cases fs) auto
next
  case (Cons x p)
  then obtain es where fs: "fs = Dir es" by (cases fs) auto
  let ?c0 = "case map_of es x of None \<Rightarrow> Dir [] | Some c \<Rightarrow> c"
  from Cons.prems fs obtain c1 where c1: "mkdirSync p ?c0 = Inr c1" "f1 = Dir (AList.update x c1 es)"
    by (auto split: sum.splits)
  from Cons.IH [OF c1(1)] have "mkdirSync (p @ q) c1 = mkdirSync (p @ q) ?c0" .
  then show ?case
    by (simp add: fs c1(2) AList.update_conv' split: sum.splits)
qed

lemma mkdirSync_prefix:
  "mkdirSync (p @ q) fs = Inr f \<Longrightarrow> \<exists>f1. mkdirSync p fs = Inr f1"
proof (induction p arbitrary: fs f)
  case Nil
  then show ?case by (cases fs; cases q) auto
next
  case (Cons x p)
  then obtain es where fs: "fs = Dir es" by (cases fs) auto
  let ?c0 = "case map_of es x of None \<Rightarrow> Dir [] | Some c \<Rightarrow> c"
  from Cons.prems fs obtain c' where "mkdirSync (p @ q) ?c0 = Inr c'"
    by (auto split: sum.splits)
  from Cons.IH [OF this] show ?case by (auto simp: fs)
qed

lemma mkdirSync_notFile:
  assumes "mkdirSync p fs = Inr f"
  shows "lookup fs p \<noteq> Some (File c)"
  using mkdirSync_dir [OF assms] by auto

lemma mkdirPath_plain:
  assumes "plainName a" "plainName b"
  shows "mkdirPath d [a, b] fs = Inr (nd, fsA) \<longleftrightarrow>
         nd = d @ [a, b] \<and> mkdirSync (d @ [a, b]) fs = Inr fsA"
proof
  assume m: "mkdirPath d [a, b] fs = Inr (nd, fsA)"
  from assms have ab: "a \<noteq> []" "a \<noteq> ''.''" "a \<noteq> ''..''" "b \<noteq> []" "b \<noteq> ''.''" "b \<noteq> ''..''"
    by (auto simp: plainName_def)
  from m ab obtain f1 where f1: "mkdirSync (d @ [a]) fs = Inr f1"
    and r: "mkdirSync (d @ [a, b]) f1 = Inr fsA" "nd = d @ [a, b]"
    by (auto split: option.splits node.splits sum.splits)
  from mkdirSync_again [OF f1, of "[b]"] r show "nd = d @ [a, b] \<and> mkdirSync (d @ [a, b]) fs = Inr fsA"
    by simp
next
  assume h: "nd = d @ [a, b] \<and> mkdirSync (d @ [a, b]) fs = Inr fsA"
  then have full: "mkdirSync ((d @ [a]) @ [b]) fs = Inr fsA" by simp
  from assms have ab: "a \<noteq> []" "a \<noteq> ''.''" "a \<noteq> ''..''" "b \<noteq> []" "b \<noteq> ''.''" "b \<noteq> ''..''"
    by (auto simp: plainName_def)
  from mkdirSync_prefix [OF full] obtain f1 where f1: "mkdirSync (d @ [a]) fs = Inr f1" by blast
  have 1: "lookup fs (d @ [a]) \<noteq> Some (File c)" for c
    by (rule mkdirSync_notFile [OF f1])
  have "lookup f1 ((d @ [a]) @ [b]) = lookup fs ((d @ [a]) @ [b])"
    by (rule mkdirSync_below [OF f1]) simp
  with mkdirSync_notFile [OF full] have 2: "lookup f1 (d @ [a, b]) \<noteq> Some (File c)" for c
    by simp
  from mkdirSync_again [OF f1, of "[b]"] full have 3: "mkdirSync (d @ [a, b]) f1 = Inr fsA" by simp
  from 1 2 have "mkdirPath d [a, b] fs = Inr (d @ [a, b], fsA)"
    using ab f1 3 by (auto split: option.splits node.splits)
  with h show "mkdirPath d [a, b] fs = Inr (nd, fsA)" by simp
qed


lemma moveCurrentSnapshots_Inr:
  assumes "moveCurrentSnapshots cfg data fs = Inr (vf, fs')"
  obtains version newSrcDir fsA subNodes where
    "snapshotVersion cfg data fs = Some version"
    "mkdirPath (folder data) (''src_snapshots'' # splitPath version) fs = Inr (newSrcDir, fsA)"
    "readdirSync fsA (folder data @ [''current_snapshots'']) = Inr subNodes"
    "copyFiles (folder data @ [''current_snapshots'']) newSrcDir subNodes fsA = Inr fs'"
  using assms
  by (auto simp: moveCurrentSnapshots_def snapshotVersion_def Let_def simp del: mkdirPath.simps
      split: if_splits sum.splits option.splits prod.splits)



lemma lookup_sub: "lookup fs p = Some n \<Longrightarrow> lookup fs (p @ q) = lookup n q"
  by (simp add: lookup_append)

lemma lookup_eq_sub: "lookup fs p = lookup fs' p \<Longrightarrow> lookup fs (p @ q) = lookup fs' (p @ q)"
  by (simp add: lookup_append)


lemma putNode_ok:
  "lookup fs q = Some (Dir es) \<Longrightarrow> \<exists>fs'. putNode (q @ [x]) new fs = Inr fs'"
proof (induction q arbitrary: fs es)
  case Nil
  then show ?case by simp
next
  case (Cons y q)
  then obtain ds c where fs: "fs = Dir ds" "map_of ds y = Some c" "lookup c q = Some (Dir es)"
    by (cases fs) (auto split: option.splits)
  from Cons.IH [OF fs(3)] obtain c' where "putNode (q @ [x]) new c = Inr c'" by blast
  with fs show ?case by (cases "q @ [x]") auto
qed

lemma copyFiles_asserts:
  assumes "\<exists>n \<in> set ns. isDirectory n"
    and "\<exists>as. lookup fs (f @ b # pb) = Some (Dir as)"
    and "\<forall>m c. lookup fs ((f @ b # pb) @ [m]) = Some c \<longrightarrow> \<not> isDir c"
    and "\<forall>n \<in> set ns. \<not> isDirectory n \<longrightarrow>
           (\<exists>c. lookup fs ((f @ a # pa) @ [name n]) = Some (File c))"
    and "a \<noteq> b"
  shows "\<exists>fs'. copyFiles (f @ a # pa) (f @ b # pb) (takeWhile (\<lambda>n. \<not> isDirectory n) ns) fs = Inr fs'
             \<and> copyFiles (f @ a # pa) (f @ b # pb) ns fs = Inl (AssertionError NotADirectory, fs')"
  using assms(1-4)
proof (induction ns arbitrary: fs)
  case Nil
  then show ?case by simp
next
  case (Cons n ns)
  let ?cur = "f @ a # pa" and ?new = "f @ b # pb"
  show ?case
  proof (cases "isDirectory n")
    case True
    then show ?thesis by simp
  next
    case False
    with Cons.prems(4) obtain c where c: "lookup fs (?cur @ [name n]) = Some (File c)" by auto
    from Cons.prems(2) obtain as where as: "lookup fs ?new = Some (Dir as)" by blast
    from putNode_ok [OF as, of "name n" "File c"] obtain fs1 where
      p: "putNode (?new @ [name n]) (File c) fs = Inr fs1" by blast
    have nd: "\<not> (\<exists>ds. lookup fs (?new @ [name n]) = Some (Dir ds))"
      using Cons.prems(3) by (metis isDir.simps(1))
    have cp: "copyFileSync fs (?cur @ [name n]) (?new @ [name n]) = Inr fs1"
      using c p nd
      by (auto simp: copyFileSync_def readFileSync_def writeFileSync_def
          split: option.splits node.splits)
    have 1: "\<exists>n \<in> set ns. isDirectory n" using Cons.prems(1) False by auto
    have 2: "\<exists>as. lookup fs1 ?new = Some (Dir as)"
      using putNode_parent [OF p] by auto
    have 3: "\<forall>m c. lookup fs1 (?new @ [m]) = Some c \<longrightarrow> \<not> isDir c"
    proof (intro allI impI)
      fix m x assume l: "lookup fs1 (?new @ [m]) = Some x"
      show "\<not> isDir x"
      proof (cases "m = name n")
        case True
        with putNode_same [OF p, of "[]"] l show ?thesis by auto
      next
        case False
        from putNode_other [of ?new "name n" "[]" "File c" fs fs1 m "[]"] p False l
        have "lookup fs (?new @ [m]) = Some x" by simp
        with Cons.prems(3) show ?thesis by blast
      qed
    qed
    have src: "lookup fs1 (?cur @ r) = lookup fs (?cur @ r)" for r
      using putNode_other [of f b "pb @ [name n]" "File c" fs fs1 a "pa @ r"] p assms(5) by simp
    have 4: "\<forall>k \<in> set ns. \<not> isDirectory k \<longrightarrow>
           (\<exists>c. lookup fs1 (?cur @ [name k]) = Some (File c))"
      using Cons.prems(4) src by simp
    from Cons.IH [OF 1 2 3 4] cp False show ?thesis by simp
  qed
qed

lemma dirents_file:
  assumes "wellFormed (Dir es)" "n \<in> set (dirents es)" "\<not> isDirectory n"
  shows "\<exists>c. map_of es (name n) = Some (File c)"
proof -
  from assms(2) obtain x where x: "(name n, x) \<in> set es" "isDirectory n = isDir x"
    by (auto simp: dirents_def)
  from assms(1) have "distinct (map fst es)" by simp
  from map_of_is_SomeI [OF this x(1)] x(2) assms(3) show ?thesis by (cases x) auto
qed

lemma dirents_dir:
  assumes "\<exists>e \<in> set es. isDir (snd e)"
  shows "\<exists>n \<in> set (dirents es). isDirectory n"
proof -
  from assms obtain a b where "(a, b) \<in> set es" "isDir b" by auto
  then have "\<lparr>name = a, isDirectory = isDir b\<rparr> \<in> set (dirents es)"
    by (force simp: dirents_def)
  with \<open>isDir b\<close> show ?thesis by force
qed

lemma update_mem: "(x, c) \<in> set (AList.update x c es)"
  by (induction es) auto

lemma mkdirSync_isDir: "mkdirSync p fs = Inr fs' \<Longrightarrow> isDir fs'"
  by (cases p; cases fs) (auto split: sum.splits)

lemma mkdirSync_keeps_subdir:
  "mkdirSync p fs = Inr fs' \<Longrightarrow> lookup fs q = Some (Dir es) \<Longrightarrow> e \<in> set es \<Longrightarrow> isDir (snd e) \<Longrightarrow>
   \<exists>es'. lookup fs' q = Some (Dir es') \<and> (\<exists>e' \<in> set es'. isDir (snd e'))"
proof (induction p arbitrary: fs fs' q es e)
  case Nil
  then show ?case by (cases fs) auto
next
  case (Cons x p)
  then obtain ds where fs: "fs = Dir ds" by (cases fs) auto
  let ?c0 = "case map_of ds x of None \<Rightarrow> Dir [] | Some c \<Rightarrow> c"
  from Cons.prems(1) fs obtain c' where c': "mkdirSync p ?c0 = Inr c'"
    "fs' = Dir (AList.update x c' ds)"
    by (auto split: sum.splits)
  show ?case
  proof (cases q)
    case Nil
    have "(x, c') \<in> set (AList.update x c' ds)" by (rule update_mem)
    moreover have "isDir c'" by (rule mkdirSync_isDir [OF c'(1)])
    ultimately show ?thesis using Nil c'(2) by force
  next
    case (Cons y q')
    show ?thesis
    proof (cases "y = x")
      case False
      with Cons Cons.prems(2-4) fs c'(2) show ?thesis
        by (auto simp: AList.update_conv' split: option.splits)
    next
      case True
      with Cons Cons.prems(2) fs obtain c where c: "map_of ds x = Some c"
        "lookup c q' = Some (Dir es)"
        by (auto split: option.splits)
      from Cons.IH [of c c' q' es e] c c'(1) Cons.prems(3,4)
      obtain es' where "lookup c' q' = Some (Dir es')" "\<exists>e' \<in> set es'. isDir (snd e')"
        by auto
      with True Cons c'(2) show ?thesis by (auto simp: AList.update_conv')
    qed
  qed
qed

lemma mkdirPath_step:
  assumes "mkdirPath d (x # xs) fs = Inr (nd, fs')"
  shows "(x = [] \<or> x = ''.'') \<and> mkdirPath d xs fs = Inr (nd, fs')
       \<or> x = ''..'' \<and> mkdirPath (butlast d) xs fs = Inr (nd, fs')
       \<or> x \<noteq> [] \<and> x \<noteq> ''.'' \<and> x \<noteq> ''..''
          \<and> (\<exists>f1. mkdirSync (d @ [x]) fs = Inr f1 \<and> mkdirPath (d @ [x]) xs f1 = Inr (nd, fs'))"
  using assms by (auto split: if_splits option.splits node.splits sum.splits)

lemma mkdirPath_keeps_subdir:
  "mkdirPath d xs fs = Inr (nd, fs') \<Longrightarrow>
   \<exists>es. lookup fs q = Some (Dir es) \<and> (\<exists>e \<in> set es. isDir (snd e)) \<Longrightarrow>
   \<exists>es'. lookup fs' q = Some (Dir es') \<and> (\<exists>e' \<in> set es'. isDir (snd e'))"
proof (induction xs arbitrary: d fs)
  case Nil
  then show ?case by simp
next
  case (Cons x xs)
  from mkdirPath_step [OF Cons.prems(1)] consider
    "mkdirPath d xs fs = Inr (nd, fs')" | "mkdirPath (butlast d) xs fs = Inr (nd, fs')"
    | f1 where "mkdirSync (d @ [x]) fs = Inr f1" "mkdirPath (d @ [x]) xs f1 = Inr (nd, fs')"
    by blast
  then show ?case
  proof cases
    case 1
    from Cons.IH [OF 1 Cons.prems(2)] show ?thesis .
  next
    case 2
    from Cons.IH [OF 2 Cons.prems(2)] show ?thesis .
  next
    case 3
    from Cons.prems(2) mkdirSync_keeps_subdir [OF 3(1)]
    have "\<exists>es. lookup f1 q = Some (Dir es) \<and> (\<exists>e \<in> set es. isDir (snd e))" by blast
    from Cons.IH [OF 3(2) this] show ?thesis .
  qed
qed

lemma lookup_butlast:
  assumes "lookup fs d = Some (Dir es)"
  shows "\<exists>ds. lookup fs (butlast d) = Some (Dir ds)"
proof (cases d rule: rev_cases)
  case Nil
  with assms show ?thesis by simp
next
  case (snoc ys y)
  with assms have "lookup fs (ys @ [y]) = Some (Dir es)" by simp
  then obtain n where n: "lookup fs ys = Some n" "lookup n [y] = Some (Dir es)"
    by (auto simp: lookup_append split: option.splits)
  then obtain ds where "n = Dir ds" by (cases n) auto
  with n snoc show ?thesis by simp
qed

lemma mkdirPath_dir:
  "mkdirPath d xs fs = Inr (nd, fs') \<Longrightarrow> \<exists>es. lookup fs d = Some (Dir es) \<Longrightarrow>
   \<exists>es. lookup fs' nd = Some (Dir es)"
proof (induction xs arbitrary: d fs)
  case Nil
  then show ?case by simp
next
  case (Cons x xs)
  from mkdirPath_step [OF Cons.prems(1)] consider
    "mkdirPath d xs fs = Inr (nd, fs')" | "mkdirPath (butlast d) xs fs = Inr (nd, fs')"
    | f1 where "mkdirSync (d @ [x]) fs = Inr f1" "mkdirPath (d @ [x]) xs f1 = Inr (nd, fs')"
    by blast
  then show ?case
  proof cases
    case 1
    from Cons.IH [OF 1 Cons.prems(2)] show ?thesis .
  next
    case 2
    from Cons.prems(2) lookup_butlast have "\<exists>ds. lookup fs (butlast d) = Some (Dir ds)" by blast
    from Cons.IH [OF 2 this] show ?thesis .
  next
    case 3
    from mkdirSync_dir [OF 3(1)] have "\<exists>es. lookup f1 (d @ [x]) = Some (Dir es)" by blast
    from Cons.IH [OF 3(2) this] show ?thesis .
  qed
qed

lemma diverge:
  "take (length xs) ys \<noteq> xs \<Longrightarrow> take (length ys) xs \<noteq> ys \<Longrightarrow>
   \<exists>f a pa b pb. xs = f @ a # pa \<and> ys = f @ b # pb \<and> a \<noteq> b"
proof (induction xs arbitrary: ys)
  case Nil
  then show ?case by simp
next
  case (Cons x xs)
  then obtain y ys' where ys: "ys = y # ys'" by (cases ys) auto
  show ?case
  proof (cases "x = y")
    case False
    with ys show ?thesis by (intro exI [of _ "[]"]) auto
  next
    case True
    with Cons.prems ys have "take (length xs) ys' \<noteq> xs" "take (length ys') xs \<noteq> ys'" by auto
    from Cons.IH [OF this] obtain f a pa b pb where
      "xs = f @ a # pa" "ys' = f @ b # pb" "a \<noteq> b" by blast
    with True ys show ?thesis by (intro exI [of _ "x # f"]) auto
  qed
qed

lemma archive_not_above:
  assumes cur: "lookup fsA cur = Some (Dir es)" and sub: "\<exists>e \<in> set es. isDir (snd e)"
    and wf: "wellFormed (Dir es)"
    and files: "\<forall>m c. lookup fsA (new @ [m]) = Some c \<longrightarrow> \<not> isDir c"
  shows "take (length new) cur \<noteq> new"
proof
  assume eq: "take (length new) cur = new"
  define r where "r = drop (length new) cur"
  have c: "cur = new @ r" unfolding r_def using eq by (metis append_take_drop_id)
  show False
  proof (cases r)
    case Nil
    with c cur have l: "lookup fsA new = Some (Dir es)" by simp
    from sub obtain k n where e: "(k, n) \<in> set es" "isDir n" by auto
    from wf have "distinct (map fst es)" by simp
    from map_of_is_SomeI [OF this e(1)] have "map_of es k = Some n" .
    with lookup_sub [OF l, of "[k]"] have "lookup fsA (new @ [k]) = Some n" by simp
    with files e(2) show False by blast
  next
    case (Cons m r')
    with c cur have "lookup fsA ((new @ [m]) @ r') = Some (Dir es)" by simp
    moreover have "lookup fsA ((new @ [m]) @ r') =
        (case lookup fsA (new @ [m]) of None \<Rightarrow> None | Some n \<Rightarrow> lookup n r')"
      by (rule lookup_append)
    ultimately obtain x where x: "lookup fsA (new @ [m]) = Some x" "lookup x r' = Some (Dir es)"
      by (cases "lookup fsA (new @ [m])") auto
    from x(2) have "isDir x" by (cases x; cases r') auto
    with files x(1) show False by blast
  qed
qed

lemma migration_asserts:
  assumes cur: "lookup fs (folder data @ [''current_snapshots'']) = Some (Dir es)"
    and sub: "\<exists>e \<in> set es. isDir (snd e)"
    and wf: "wellFormed fs" and v: "snapshotVersion cfg data fs = Some v"
    and mk: "mkdirPath (folder data) (''src_snapshots'' # splitPath v) fs = Inr (new, fsA)"
    and same: "lookup fsA (folder data @ [''current_snapshots''])
             = lookup fs (folder data @ [''current_snapshots''])"
    and out: "take (length (folder data @ [''current_snapshots''])) new
              \<noteq> folder data @ [''current_snapshots'']"
    and files: "\<forall>m c. lookup fsA (new @ [m]) = Some c \<longrightarrow> \<not> isDir c"
  shows "\<exists>fs'. copyFiles (folder data @ [''current_snapshots'']) new
                 (takeWhile (\<lambda>n. \<not> isDirectory n) (dirents es)) fsA = Inr fs'
             \<and> moveCurrentSnapshots cfg data fs = Inl (AssertionError NotADirectory, fs')"
proof -
  let ?cur = "folder data @ [''current_snapshots'']"
  have curA: "lookup fsA ?cur = Some (Dir es)" using same cur by simp
  have below: "lookup fsA (?cur @ r) = lookup fs (?cur @ r)" for r
    by (rule lookup_eq_sub [OF same])
  have wfd: "wellFormed (Dir es)" by (rule wellFormed_lookup [OF wf cur])
  have "take (length new) ?cur \<noteq> new"
    by (rule archive_not_above [OF curA sub wfd files])
  from diverge [OF out this] obtain f a pa b pb where
    d: "?cur = f @ a # pa" "new = f @ b # pb" "a \<noteq> b" by blast
  have rd: "readdirSync fsA ?cur = Inr (dirents es)"
    using curA by (simp add: readdirSync_def)
  have 1: "\<exists>n \<in> set (dirents es). isDirectory n" by (rule dirents_dir [OF sub])
  from lookup_butlast [OF cur] have "\<exists>ds. lookup fs (folder data) = Some (Dir ds)" by simp
  from mkdirPath_dir [OF mk this] have 2: "\<exists>as. lookup fsA (f @ b # pb) = Some (Dir as)"
    by (simp add: d(2))
  have 3: "\<forall>m c. lookup fsA ((f @ b # pb) @ [m]) = Some c \<longrightarrow> \<not> isDir c"
    using files by (simp add: d(2))
  have 4: "\<forall>n \<in> set (dirents es). \<not> isDirectory n \<longrightarrow>
           (\<exists>c. lookup fsA ((f @ a # pa) @ [name n]) = Some (File c))"
  proof (intro ballI impI)
    fix n assume "n \<in> set (dirents es)" "\<not> isDirectory n"
    from dirents_file [OF wfd this] obtain c where "map_of es (name n) = Some (File c)" by blast
    with lookup_sub [OF cur, of "[name n]"]
    have "lookup fs (?cur @ [name n]) = Some (File c)" by simp
    with below [of "[name n]"]
    show "\<exists>c. lookup fsA ((f @ a # pa) @ [name n]) = Some (File c)"
      unfolding d(1) [symmetric] by simp
  qed
  from copyFiles_asserts [OF 1 2 3 4 d(3)]
  obtain fs' where tw: "copyFiles ?cur new (takeWhile (\<lambda>n. \<not> isDirectory n) (dirents es)) fsA = Inr fs'"
    and cp: "copyFiles ?cur new (dirents es) fsA = Inl (AssertionError NotADirectory, fs')"
    unfolding d(1) [symmetric] d(2) [symmetric] by auto
  have ex: "existsSync fs ?cur" using cur by (simp add: existsSync_def)
  from v obtain content where content:
    "readFileSync fs (folder data @ [''current_snapshots'', ''snapshotVersion.json'']) = Inr content"
    "parseSnapshotVersion cfg content = Some v"
    by (auto simp: snapshotVersion_def split: sum.splits)
  then have exv: "existsSync fs (folder data @ [''current_snapshots'', ''snapshotVersion.json''])"
    by (auto simp: existsSync_def readFileSync_def split: option.splits)
  have "moveCurrentSnapshots cfg data fs = Inl (AssertionError NotADirectory, fs')"
    using ex exv content mk rd cp by (simp add: moveCurrentSnapshots_def del: mkdirPath.simps)
  with tw show ?thesis by blast
qed

text \<open>
  Claim C10. When \<^verbatim>\<open>current_snapshots\<close> has an entry that is a directory, the migration
  of Write mode never succeeds, whatever the version is. When moreover the file system
  is well formed, the version is read and is a plain name, the archive folder is created
  and holds no directory (so that no copy made before the loop reaches the directory
  fails), the migration fails with the assertion of line 220, and the files it leaves
  are those with the archive folder created and the entries before the first directory
  copied: the directory is neither copied nor skipped, and nothing after it is copied.
  The same holds for any version, of the directory that the path of line 216 names, when
  creating it left \<^verbatim>\<open>current_snapshots\<close> as it was and it is not inside
  \<^verbatim>\<open>current_snapshots\<close>.
\<close>

theorem subdirectory_fails_assertion:
  assumes cur: "lookup fs (folder data @ [''current_snapshots'']) = Some (Dir es)"
    and sub: "\<exists>e \<in> set es. isDir (snd e)"
  shows "(\<forall>r. moveCurrentSnapshots cfg data fs \<noteq> Inr r)
       \<and> (wellFormed fs \<longrightarrow>
          (\<forall>v fsA. snapshotVersion cfg data fs = Some v \<longrightarrow> plainName v \<longrightarrow>
             mkdirSync (folder data @ [''src_snapshots'', v]) fs = Inr fsA \<longrightarrow>
             (\<forall>m c. lookup fs (folder data @ [''src_snapshots'', v, m]) = Some c \<longrightarrow> \<not> isDir c) \<longrightarrow>
             (\<exists>fs'. copyFiles (folder data @ [''current_snapshots''])
                       (folder data @ [''src_snapshots'', v])
                       (takeWhile (\<lambda>n. \<not> isDirectory n) (dirents es)) fsA = Inr fs'
                   \<and> moveCurrentSnapshots cfg data fs = Inl (AssertionError NotADirectory, fs'))))
       \<and> (wellFormed fs \<longrightarrow>
          (\<forall>v newSrcDir fsA. snapshotVersion cfg data fs = Some v \<longrightarrow>
             mkdirPath (folder data) (''src_snapshots'' # splitPath v) fs = Inr (newSrcDir, fsA) \<longrightarrow>
             lookup fsA (folder data @ [''current_snapshots''])
               = lookup fs (folder data @ [''current_snapshots'']) \<longrightarrow>
             take (length (folder data @ [''current_snapshots''])) newSrcDir
               \<noteq> folder data @ [''current_snapshots''] \<longrightarrow>
             (\<forall>m c. lookup fsA (newSrcDir @ [m]) = Some c \<longrightarrow> \<not> isDir c) \<longrightarrow>
             (\<exists>fs'. copyFiles (folder data @ [''current_snapshots'']) newSrcDir
                       (takeWhile (\<lambda>n. \<not> isDirectory n) (dirents es)) fsA = Inr fs'
                   \<and> moveCurrentSnapshots cfg data fs = Inl (AssertionError NotADirectory, fs'))))"
proof (intro conjI allI impI)
  fix r
  let ?cur = "folder data @ [''current_snapshots'']"
  show "moveCurrentSnapshots cfg data fs \<noteq> Inr r"
  proof
    assume "moveCurrentSnapshots cfg data fs = Inr r"
    then obtain vf fs' where m: "moveCurrentSnapshots cfg data fs = Inr (vf, fs')" by (cases r) auto
    from moveCurrentSnapshots_Inr [OF m] obtain v nd fsA subNodes where
      mk: "mkdirPath (folder data) (''src_snapshots'' # splitPath v) fs = Inr (nd, fsA)"
      and rd: "readdirSync fsA ?cur = Inr subNodes"
      and cp: "copyFiles ?cur nd subNodes fsA = Inr fs'"
      by metis
    from cur sub have "\<exists>es. lookup fs ?cur = Some (Dir es) \<and> (\<exists>e \<in> set es. isDir (snd e))"
      by blast
    from mkdirPath_keeps_subdir [OF mk this] obtain es' where
      es': "lookup fsA ?cur = Some (Dir es')" "\<exists>e' \<in> set es'. isDir (snd e')" by blast
    with rd have "subNodes = dirents es'" by (simp add: readdirSync_def)
    with dirents_dir [OF es'(2)] have "\<exists>n \<in> set subNodes. isDirectory n" by simp
    with copyFiles_files [OF cp] show False by blast
  qed
next
  fix v fsA
  let ?cur = "folder data @ [''current_snapshots'']"
  let ?new = "folder data @ [''src_snapshots'', v]"
  assume wf: "wellFormed fs" and v: "snapshotVersion cfg data fs = Some v"
    and plain: "plainName v"
    and mk: "mkdirSync ?new fs = Inr fsA"
    and files: "\<forall>m c. lookup fs (folder data @ [''src_snapshots'', v, m]) = Some c \<longrightarrow> \<not> isDir c"
  have mkp: "mkdirPath (folder data) (''src_snapshots'' # splitPath v) fs = Inr (?new, fsA)"
    using mkdirPath_plain [OF plainName_src plain, of "folder data" fs ?new fsA] mk
    by (simp only: splitPath_plain [OF plain])
  have same: "lookup fsA ?cur = lookup fs ?cur"
    using mkdirSync_other [of "folder data" "''src_snapshots''" "[v]" fs fsA "''current_snapshots''" "[]"]
      mk by simp
  have out: "take (length ?cur) ?new \<noteq> ?cur" by simp
  have filesA: "\<forall>m c. lookup fsA (?new @ [m]) = Some c \<longrightarrow> \<not> isDir c"
    using mkdirSync_below [OF mk, of "[m]" for m] files by simp
  from migration_asserts [OF cur sub wf v mkp same out filesA]
  show "\<exists>fs'. copyFiles ?cur ?new (takeWhile (\<lambda>n. \<not> isDirectory n) (dirents es)) fsA = Inr fs'
             \<and> moveCurrentSnapshots cfg data fs = Inl (AssertionError NotADirectory, fs')" .
next
  fix v newSrcDir fsA
  let ?cur = "folder data @ [''current_snapshots'']"
  assume "wellFormed fs" "snapshotVersion cfg data fs = Some v"
    "mkdirPath (folder data) (''src_snapshots'' # splitPath v) fs = Inr (newSrcDir, fsA)"
    "lookup fsA ?cur = lookup fs ?cur"
    "take (length ?cur) newSrcDir \<noteq> ?cur"
    "\<forall>m c. lookup fsA (newSrcDir @ [m]) = Some c \<longrightarrow> \<not> isDir c"
  from migration_asserts [OF cur sub this]
  show "\<exists>fs'. copyFiles ?cur newSrcDir (takeWhile (\<lambda>n. \<not> isDirectory n) (dirents es)) fsA = Inr fs'
             \<and> moveCurrentSnapshots cfg data fs = Inl (AssertionError NotADirectory, fs')" .
qed

section \<open>The versions replayed in Validate mode\<close>

lemma replay_Nil [simp]: "replay cfg [] fs = fs"
  by (simp add: replay_def)




lemma submitted_stack [simp]:
  "submitted cfg c s0 js (s\<lparr>stack := x\<rparr>) = submitted cfg c s0 js s"
  by (simp add: submitted_def)

lemma workerEvent_keeps [simp]:
  "stack (workerEvent k ev s) = stack s" "started (workerEvent k ev s) = started s"
  "files (workerEvent k ev s) = files s"
  "map workerData (promises (workerEvent k ev s)) = map workerData (promises s)"
  by (simp_all add: workerEvent_alt settled_promises map_workerData_update split: promise.splits)













lemma submitted_limiter [simp]:
  "submitted cfg c s0 js (s\<lparr>limit := l\<rparr>) = submitted cfg c s0 js s"
  "submitted cfg c s0 js (s\<lparr>deferred := x\<rparr>) = submitted cfg c s0 js s"
  "submitted cfg c s0 js (s\<lparr>deferreds := y\<rparr>) = submitted cfg c s0 js s"
  "submitted cfg c s0 js (reject e s) = submitted cfg c s0 js s"
  by (simp_all add: submitted_def)





lemma run_append: "run cfg m c (ts @ us) s = run cfg m c us (run cfg m c ts s)"
  by (simp add: run_def)










section \<open>Runs on the example inputs\<close>

text \<open>
  Claim C2 as stated fails: with two folders in Compare mode, after both jobs are started
  and \<^verbatim>\<open>waitAll\<close> is called, the first worker exits with code 1. The promise of
  \<^verbatim>\<open>waitAll\<close> is rejected at once, while the second job is still pending.
\<close>

theorem waitAll_rejects_early:
  "waitAllCalled rejectedEarly \<and> result rejectedEarly = Rejected (WorkerExit 1)
   \<and> states rejectedEarly = [Rejected (WorkerExit 1), Pending]"
  by code_simp

text \<open>
  Claim C3 on the code. Five folders in Compare mode: four jobs are started and the fifth
  call of \<^verbatim>\<open>addWork\<close> waits at line 59 (\<open>gateFull\<close>). The first worker then exits with
  code 1 (\<open>slotLeaked\<close>): \<^verbatim>\<open>limit\<close> is not incremented and the pending \<^verbatim>\<open>Deferred\<close> is
  neither resolved nor cleared, since the callback of line 64 only runs when the worker's
  promise is fulfilled. After the other three jobs failed as well and the dispatcher was
  scheduled twice more (\<open>allFailed\<close>), it is still suspended in \<^verbatim>\<open>addWork\<close>, the fifth
  job was never started and the promise of \<^verbatim>\<open>processContent\<close> is still pending.
\<close>

theorem failed_job_keeps_slot:
  "limit gateFull = - 1 \<and> deferred gateFull = Some 0 \<and> deferreds gateFull = [0]
   \<and> states gateFull = [Pending, Pending, Pending, Pending]
   \<and> limit slotLeaked = - 1 \<and> deferred slotLeaked = Some 0 \<and> deferreds slotLeaked = [0]
   \<and> states slotLeaked = [Rejected (WorkerExit 1), Pending, Pending, Pending]
   \<and> limit allFailed = - 1 \<and> deferred allFailed = Some 0 \<and> deferreds allFailed = [0]
   \<and> states allFailed = [Rejected (WorkerExit 1), Rejected (WorkerMessage ''diff'' True),
                          Rejected (Thrown ''crash''), Rejected (WorkerExit 2)]
   \<and> map isAwait (stack allFailed) = [True, False]
   \<and> map folder (started allFailed) =
       [[''content'', ''doc1''], [''content'', ''doc2''], [''content'', ''doc3''],
        [''content'', ''doc4'']]
   \<and> result allFailed = Pending"
  by code_simp

text \<open>
  Claim C4 on the code. One folder in Write mode, with worker threads: after three steps of
  the dispatcher and no event of the worker, the current snapshots are archived, the job
  is started and still pending, and the version file already holds the version of the
  running build: \<^verbatim>\<open>await processNode(...)\<close> in line 225 returns when the job is admitted,
  not when it completes.
\<close>

theorem version_written_before_job_completes:
  "readFileSync fiveDocs [''content'', ''doc1'', ''current_snapshots'', ''snapshotVersion.json'']
     = Inr ''0.1''
   \<and> stringifySnapshotVersion exampleConfig (pkgVersion exampleConfig) = ''0.2''
   \<and> readFileSync (files stampedEarly)
        [''content'', ''doc1'', ''current_snapshots'', ''snapshotVersion.json''] = Inr ''0.2''
   \<and> map (folder \<circ> workerData) (promises stampedEarly) = [[''content'', ''doc1'']]
   \<and> states stampedEarly = [Pending]"
  by code_simp

text \<open>
  Claim C5 as stated fails on the inline path: with two folders and \<^verbatim>\<open>concurrently\<close>
  false, the replay of \<^verbatim>\<open>doc1\<close> throws and the replay of \<^verbatim>\<open>doc2\<close> would report no
  error. The run ends rejected after the first job; the job of \<^verbatim>\<open>doc2\<close> is never run.
\<close>

theorem inline_failure_stops_the_run:
  "fst (Go exampleConfig
         \<lparr>verbose = False, inDirName = [''content'', ''doc2''],
          outDirName = [''content'', ''doc2'', ''current_snapshots''],
          replaySnapFreq = 1000, write' = False, compare = True, expandFiles = False,
          replayInitializeFromSnapshotsDir = None\<rparr> twoDocs) = Inr []
   \<and> map folder (started inlineAbort) = [[''content'', ''doc1'']]
   \<and> stack inlineAbort = [] \<and> result inlineAbort = Rejected (Thrown ''boom'')"
  by code_simp


text \<open>
  With worker threads, six versions and four workers that exit with code 1, the fifth
  call of \<^verbatim>\<open>addWork\<close> waits for good: four of the six jobs are submitted.
\<close>

lemma validate_blocked_by_failed_jobs:
  "map initializeFromSnapshotsDir (map workerData (promises validateBlocked)) =
     [Some [''content'', ''doc1'', ''src_snapshots'', ''1.0''],
      Some [''content'', ''doc1'', ''src_snapshots'', ''2.0''],
      Some [''content'', ''doc1'', ''src_snapshots'', ''3.0''],
      Some [''content'', ''doc1'', ''src_snapshots'', ''4.0'']]
   \<and> map promise (promises validateBlocked) =
       [Rejected (WorkerExit 1), Rejected (WorkerExit 1), Rejected (WorkerExit 1),
        Rejected (WorkerExit 1)]
   \<and> suspended (stack validateBlocked) \<and> limit validateBlocked = - 1
   \<and> result validateBlocked = Pending"
  by code_simp


theorem waitAll_settles_witness:
  "result bothFulfilled = Fulfilled \<and> waitAllCalled bothFulfilled
   \<and> list_all (\<lambda>j. promise j = Fulfilled) (promises bothFulfilled)
   \<and> map workerData (promises bothFulfilled) = started bothFulfilled
   \<and> worker_threads exampleConfig
   \<and> waitAllCalled rejectedEarly \<and> promise (promises rejectedEarly ! 0) = Rejected (WorkerExit 1)
   \<and> result rejectedEarly = Rejected (WorkerExit 1)
   \<and> promise (promises rejectedEarly ! 1) = Pending
   \<and> promise (promises (step exampleConfig Compare True (Worker 1 (OnExit 0)) rejectedEarly) ! 1)
       = Fulfilled
   \<and> result (step exampleConfig Compare True (Worker 1 (OnExit 0)) rejectedEarly)
       = Rejected (WorkerExit 1)
   \<and> stack bothRejected = [ForNodes []] \<and> waitAllCalled bothRejected = False
   \<and> map promise (promises bothRejected) = [Rejected (WorkerExit 3), Rejected (WorkerExit 7)]
   \<and> waitAllCalled (step exampleConfig Compare True Dispatch bothRejected)
   \<and> result (step exampleConfig Compare True Dispatch bothRejected) = Rejected (WorkerExit 3)
   \<and> stack twoStarted = [ForNodes []]
   \<and> map promise (promises twoStarted) = [Pending, Pending]
   \<and> result (step exampleConfig Compare True Dispatch twoStarted) = Pending
   \<and> waitAllCalled bothRunning \<and> result bothRunning = Pending
   \<and> map promise (promises bothRunning) = [Pending, Pending]
   \<and> promise (promises (step exampleConfig Compare True (Worker 1 (OnExit 7)) bothRunning) ! 1)
       = Rejected (WorkerExit 7)
   \<and> result (step exampleConfig Compare True (Worker 1 (OnExit 7)) bothRunning)
       = Rejected (WorkerExit 7)"
proof -
  note A = waitAll_settles [of exampleConfig Compare True
      "replicate 5 Dispatch @ [Worker 0 (OnExit 0), Worker 1 (OnExit 0)]" twoDocs,
      folded bothFulfilled_def, unfolded Let_def]
  note B = waitAll_settles [of exampleConfig Compare True
      "replicate 5 Dispatch @ [Worker 0 (OnExit 1)]" twoDocs,
      folded rejectedEarly_def, unfolded Let_def]
  note C = waitAll_settles [of exampleConfig Compare True
      "replicate 4 Dispatch @ [Worker 1 (OnExit 7), Worker 0 (OnExit 3)]" twoDocs,
      folded bothRejected_def, unfolded Let_def]
  note D = waitAll_settles [of exampleConfig Compare True "replicate 4 Dispatch" twoDocs,
      folded twoStarted_def, unfolded Let_def]
  note E = waitAll_settles [of exampleConfig Compare True "replicate 5 Dispatch" twoDocs,
      folded bothRunning_def, unfolded Let_def]
  have a: "result bothFulfilled = Fulfilled" "worker_threads exampleConfig" by code_simp+
  have b: "waitAllCalled rejectedEarly" "promise (promises rejectedEarly ! 0) = Rejected (WorkerExit 1)"
    "result rejectedEarly = Rejected (WorkerExit 1)" "promise (promises rejectedEarly ! 1) = Pending"
    "1 < length (promises rejectedEarly)"
    by code_simp+
  from A a have a': "waitAllCalled bothFulfilled"
    "list_all (\<lambda>j. promise j = Fulfilled) (promises bothFulfilled)"
    "map workerData (promises bothFulfilled) = started bothFulfilled"
    by (simp_all add: list_all_iff)
  from B b have b': "promise (promises (step exampleConfig Compare True (Worker 1 (OnExit 0)) rejectedEarly) ! 1)
       = Fulfilled" "result (step exampleConfig Compare True (Worker 1 (OnExit 0)) rejectedEarly)
       = Rejected (WorkerExit 1)"
    by (simp_all del: step.simps)
  have c: "stack bothRejected = [ForNodes []]" "waitAllCalled bothRejected = False"
    "map promise (promises bothRejected) = [Rejected (WorkerExit 3), Rejected (WorkerExit 7)]"
    "0 < length (promises bothRejected)"
    "promise (promises bothRejected ! 0) = Rejected (WorkerExit 3)"
    by code_simp+
  from C c(1) have C': "waitAllCalled (step exampleConfig Compare True Dispatch bothRejected)"
    "\<forall>i e. i < length (promises bothRejected) \<longrightarrow> promise (promises bothRejected ! i) = Rejected e \<longrightarrow>
            (\<forall>j < i. \<forall>e'. promise (promises bothRejected ! j) \<noteq> Rejected e') \<longrightarrow>
            result (step exampleConfig Compare True Dispatch bothRejected) = Rejected e"
    by blast+
  from C'(2) [rule_format, of 0 "WorkerExit 3"] c(4,5)
  have c': "result (step exampleConfig Compare True Dispatch bothRejected) = Rejected (WorkerExit 3)"
    by simp
  have d: "stack twoStarted = [ForNodes []]"
    "map promise (promises twoStarted) = [Pending, Pending]"
    by code_simp+
  from d(2) have d2: "\<forall>j \<in> set (promises twoStarted). promise j = Pending"
    by (metis (no_types, lifting) in_set_conv_nth length_map nth_map nth_Cons_0 nth_Cons_Suc
        less_Suc0 less_2_cases length_Cons list.size(3) One_nat_def numeral_2_eq_2 Suc_1)
  from D d(1) have "(\<forall>j \<in> set (promises twoStarted). \<forall>e. promise j \<noteq> Rejected e) \<longrightarrow>
            result (step exampleConfig Compare True Dispatch twoStarted) =
              (if \<forall>j \<in> set (promises twoStarted). promise j = Fulfilled then Fulfilled else Pending)"
    by blast
  moreover have "promises twoStarted \<noteq> []" using d(2) by auto
  ultimately have d': "result (step exampleConfig Compare True Dispatch twoStarted) = Pending"
    using d2 by (cases "promises twoStarted") auto
  have e: "waitAllCalled bothRunning" "result bothRunning = Pending"
    "map promise (promises bothRunning) = [Pending, Pending]"
    "1 < length (promises bothRunning)" "promise (promises bothRunning ! 1) = Pending"
    "promise (promises (step exampleConfig Compare True (Worker 1 (OnExit 7)) bothRunning) ! 1)
       = Rejected (WorkerExit 7)"
    by code_simp+
  from E e(1,2) have "\<forall>k ev e. k < length (promises bothRunning) \<longrightarrow>
           promise (promises bothRunning ! k) = Pending \<longrightarrow>
           promise (promises (step exampleConfig Compare True (Worker k ev) bothRunning) ! k) = Rejected e \<longrightarrow>
           result (step exampleConfig Compare True (Worker k ev) bothRunning) = Rejected e"
    by blast
  from this [rule_format, OF e(4,5,6)]
  have e': "result (step exampleConfig Compare True (Worker 1 (OnExit 7)) bothRunning)
       = Rejected (WorkerExit 7)" .
  from a a' b b' c C'(1) c' d d' e e' show ?thesis by simp
qed

theorem failure_isolation_witness:
  "promise (promises gateFull ! 0) = Pending
   \<and> workerSettles (mode (workerData (promises gateFull ! 0))) (OnExit 1) = Rejected (WorkerExit 1)
   \<and> stack (step exampleConfig Compare True (Worker 0 (OnExit 1)) gateFull) = stack gateFull
   \<and> started (step exampleConfig Compare True (Worker 0 (OnExit 1)) gateFull) = started gateFull
   \<and> stack inlineReady = [ProcessNode doc1Args, ForNodes [\<lparr>name = ''doc2'', isDirectory = True\<rparr>]]
   \<and> result (step exampleConfig Compare False Dispatch inlineReady) = Rejected (Thrown ''boom'')
   \<and> started (run exampleConfig Compare False (replicate 3 Dispatch)
                (step exampleConfig Compare False Dispatch inlineReady)) = [doc1Args]
   \<and> waitAllCalled rejectedEarly
   \<and> promise (promises rejectedEarly ! 0) = Rejected (WorkerExit 1)
   \<and> result rejectedEarly = Rejected (WorkerExit 1)"
proof -
  note A = failure_isolation [of exampleConfig Compare True "replicate 12 Dispatch" fiveDocs,
      folded gateFull_def, unfolded Let_def]
  note B = failure_isolation [of exampleConfig Compare False "[Dispatch]" twoDocs,
      folded inlineReady_def, unfolded Let_def]
  note C = failure_isolation [of exampleConfig Compare True
      "replicate 5 Dispatch @ [Worker 0 (OnExit 1)]" twoDocs,
      folded rejectedEarly_def, unfolded Let_def]
  have a: "0 < length (promises gateFull)" "promise (promises gateFull ! 0) = Pending"
    "workerSettles (mode (workerData (promises gateFull ! 0))) (OnExit 1) = Rejected (WorkerExit 1)"
    by code_simp+
  have b: "stack inlineReady = [ProcessNode doc1Args, ForNodes [\<lparr>name = ''doc2'', isDirectory = True\<rparr>]]"
    "started inlineReady = []"
    "fst (processOneFile exampleConfig doc1Args
           (inlineReady\<lparr>stack := [ForNodes [\<lparr>name = ''doc2'', isDirectory = True\<rparr>]]\<rparr>))
       = Inl (Thrown ''boom'')"
    by code_simp+
  have c: "waitAllCalled rejectedEarly" "promise (promises rejectedEarly ! 0) = Rejected (WorkerExit 1)"
    "result rejectedEarly = Rejected (WorkerExit 1)"
    by code_simp+
  from A a have a': "stack (step exampleConfig Compare True (Worker 0 (OnExit 1)) gateFull) = stack gateFull"
    "started (step exampleConfig Compare True (Worker 0 (OnExit 1)) gateFull) = started gateFull"
    by blast+
  from B b have b': "result (step exampleConfig Compare False Dispatch inlineReady) = Rejected (Thrown ''boom'')"
   "started (run exampleConfig Compare False (replicate 3 Dispatch)
                (step exampleConfig Compare False Dispatch inlineReady)) = [doc1Args]"
    by (simp_all del: step.simps)
  from C c a a' b b' show ?thesis by simp
qed

theorem missing_log_skipped_witness:
  "stack noLogStart =
     [ForNodes [\<lparr>name = ''doc0'', isDirectory = True\<rparr>, \<lparr>name = ''doc2'', isDirectory = True\<rparr>]]
   \<and> existsSync (files noLogStart) [''content'', ''doc0'', ''messages.json''] = False
   \<and> console (step exampleConfig Stress True Dispatch noLogStart)
       = [CantLocate [''content'', ''doc0'', ''messages.json'']]
   \<and> stack (step exampleConfig Stress True Dispatch noLogStart)
       = [ForNodes [\<lparr>name = ''doc2'', isDirectory = True\<rparr>]]
   \<and> promises (step exampleConfig Stress True Dispatch noLogStart) = []
   \<and> started (step exampleConfig Stress True Dispatch noLogStart) = []
   \<and> result (step exampleConfig Stress True Dispatch noLogStart) = Pending"
proof -
  have h: "stack noLogStart =
      ForNodes (\<lparr>name = ''doc0'', isDirectory = True\<rparr> # [\<lparr>name = ''doc2'', isDirectory = True\<rparr>]) # []"
    "isDirectory \<lparr>name = ''doc0'', isDirectory = True\<rparr>"
    "\<not> existsSync (files noLogStart)
         (fileLocation exampleConfig @ [name \<lparr>name = ''doc0'', isDirectory = True\<rparr>, ''messages.json''])"
    by code_simp+
  have f: "console noLogStart = []" "promises noLogStart = []" "started noLogStart = []"
    "result noLogStart = Pending" "fileLocation exampleConfig = [''content'']"
    by code_simp+
  from missing_log_skipped [OF h, of Stress True] h f show ?thesis
    by (simp del: step.simps)
qed

theorem write_preconditions_witness:
  "existsSync (files noLogStart) [''content'', ''doc0'', ''current_snapshots''] = False
   \<and> moveCurrentSnapshots exampleConfig doc0Write (files noLogStart)
       = Inl (AssertionError (DirectoryExists [''content'', ''doc0'', ''current_snapshots'']),
              files noLogStart)
   \<and> result (processNodeForWrite exampleConfig doc0Write noLogStart)
       = Rejected (AssertionError (DirectoryExists [''content'', ''doc0'', ''current_snapshots'']))
   \<and> stack (run exampleConfig Write True [Dispatch, Dispatch]
               (processNodeForWrite exampleConfig doc0Write noLogStart)) = []
   \<and> existsSync noVersionDocs [''content'', ''doc1'', ''current_snapshots'']
   \<and> existsSync noVersionDocs [''content'', ''doc1'', ''current_snapshots'', ''snapshotVersion.json'']
       = False
   \<and> moveCurrentSnapshots exampleConfig doc1Write noVersionDocs
       = Inl (AssertionError (VersionFileExists
               [''content'', ''doc1'', ''current_snapshots'', ''snapshotVersion.json'']),
              noVersionDocs)
   \<and> existsSync oneDoc [''content'', ''doc1'', ''current_snapshots'']
   \<and> existsSync oneDoc [''content'', ''doc1'', ''current_snapshots'', ''snapshotVersion.json'']
   \<and> (moveCurrentSnapshots exampleConfig doc1Write oneDoc
        = Inl (AssertionError (DirectoryExists [''content'', ''doc1'', ''current_snapshots'']),
               oneDoc))
       = False"
proof -
  note A = write_preconditions [of doc0Write noLogStart exampleConfig Write True, unfolded Let_def]
  note B = write_preconditions [of doc1Write "noLogStart\<lparr>files := noVersionDocs\<rparr>" exampleConfig Write True,
      unfolded Let_def]
  note C = write_preconditions [of doc1Write "noLogStart\<lparr>files := oneDoc\<rparr>" exampleConfig Write True,
      unfolded Let_def]
  have a: "\<not> existsSync (files noLogStart) (folder doc0Write @ [''current_snapshots''])"
    "folder doc0Write = [''content'', ''doc0'']"
    by code_simp+
  have b: "existsSync noVersionDocs (folder doc1Write @ [''current_snapshots''])"
    "\<not> existsSync noVersionDocs ((folder doc1Write @ [''current_snapshots'']) @ [''snapshotVersion.json''])"
    "folder doc1Write = [''content'', ''doc1'']"
    by code_simp+
  have c: "existsSync oneDoc (folder doc1Write @ [''current_snapshots''])"
    "existsSync oneDoc ((folder doc1Write @ [''current_snapshots'']) @ [''snapshotVersion.json''])"
    by code_simp+
  from A a have a': "moveCurrentSnapshots exampleConfig doc0Write (files noLogStart)
       = Inl (AssertionError (DirectoryExists [''content'', ''doc0'', ''current_snapshots'']),
              files noLogStart)"
    by simp
  with A have a'': "result (processNodeForWrite exampleConfig doc0Write noLogStart)
       = Rejected (AssertionError (DirectoryExists [''content'', ''doc0'', ''current_snapshots'']))"
    "stack (run exampleConfig Write True [Dispatch, Dispatch]
               (processNodeForWrite exampleConfig doc0Write noLogStart)) = []"
    by blast+
  from B b have b': "moveCurrentSnapshots exampleConfig doc1Write noVersionDocs
       = Inl (AssertionError (VersionFileExists
               [''content'', ''doc1'', ''current_snapshots'', ''snapshotVersion.json'']),
              noVersionDocs)"
    by simp
  from C c have c': "(moveCurrentSnapshots exampleConfig doc1Write oneDoc
        = Inl (AssertionError (DirectoryExists [''content'', ''doc1'', ''current_snapshots'']),
               oneDoc))
       = False"
    by simp
  from a a' a'' b b' c c' show ?thesis by simp
qed



theorem subdirectory_fails_assertion_witness:
  "lookup leftoverDocs [''content'', ''doc1'', ''current_snapshots''] =
     Some (Dir [(''snapshotVersion.json'', File ''0.1''), (''snapshot_0'', File ''a''),
                (''FailedSnapshots'', Dir [(''snapshot_1'', File ''x'')])])
   \<and> wellFormed leftoverDocs
   \<and> snapshotVersion exampleConfig doc1Write leftoverDocs = Some ''0.1'' \<and> plainName ''0.1''
   \<and> moveCurrentSnapshots exampleConfig doc1Write leftoverDocs
       = Inl (AssertionError NotADirectory, leftoverArchived)
   \<and> lookup leftoverArchived [''content'', ''doc1'', ''src_snapshots''] =
       Some (Dir [(''0.1'', Dir [(''snapshotVersion.json'', File ''0.1''),
                                 (''snapshot_0'', File ''a'')])])
   \<and> wellFormed leftoverDotDocs
   \<and> snapshotVersion exampleConfig doc1Write leftoverDotDocs = Some ''./0.1''
   \<and> mkdirPath [''content'', ''doc1''] (''src_snapshots'' # splitPath ''./0.1'') leftoverDotDocs
       = Inr ([''content'', ''doc1'', ''src_snapshots'', ''0.1''], leftoverDotFolder)
   \<and> moveCurrentSnapshots exampleConfig doc1Write leftoverDotDocs
       = Inl (AssertionError NotADirectory, leftoverDotArchived)
   \<and> lookup leftoverDotArchived [''content'', ''doc1'', ''src_snapshots''] =
       Some (Dir [(''0.1'', Dir [(''snapshotVersion.json'', File ''./0.1''),
                                 (''snapshot_0'', File ''a'')])])"
proof -
  let ?es = "[(''snapshotVersion.json'', File ''0.1''), (''snapshot_0'', File ''a''),
              (''FailedSnapshots'', Dir [(''snapshot_1'', File ''x'')])]"
  let ?ds = "[(''snapshotVersion.json'', File ''./0.1''), (''snapshot_0'', File ''a''),
              (''FailedSnapshots'', Dir [(''snapshot_1'', File ''x'')])]"
  let ?new = "[''content'', ''doc1'', ''src_snapshots'', ''0.1'']"
  have cur: "lookup leftoverDocs (folder doc1Write @ [''current_snapshots'']) = Some (Dir ?es)"
    by code_simp
  have sub: "\<exists>e \<in> set ?es. isDir (snd e)" by simp
  have wf: "wellFormed leftoverDocs" by code_simp
  have v: "snapshotVersion exampleConfig doc1Write leftoverDocs = Some ''0.1''" by code_simp
  have plain: "plainName ''0.1''" by code_simp
  have mk: "mkdirSync (folder doc1Write @ [''src_snapshots'', ''0.1'']) leftoverDocs
              = Inr leftoverFolder"
    by code_simp
  have none: "\<forall>m c. lookup leftoverDocs (folder doc1Write @ [''src_snapshots'', ''0.1'', m]) = Some c
                \<longrightarrow> \<not> isDir c"
    by (simp add: doc1Write_def leftoverDocs_def)
  have f: "folder doc1Write = [''content'', ''doc1'']" by code_simp
  have before: "copyFiles (folder doc1Write @ [''current_snapshots''])
                  (folder doc1Write @ [''src_snapshots'', ''0.1''])
                  (takeWhile (\<lambda>n. \<not> isDirectory n) (dirents ?es)) leftoverFolder
                = Inr leftoverArchived"
    by code_simp
  have arch: "lookup leftoverArchived [''content'', ''doc1'', ''src_snapshots''] =
       Some (Dir [(''0.1'', Dir [(''snapshotVersion.json'', File ''0.1''),
                                 (''snapshot_0'', File ''a'')])])"
    by code_simp
  from subdirectory_fails_assertion [OF cur sub, of exampleConfig, THEN conjunct2, THEN conjunct1,
      rule_format, OF wf v plain mk] none before
  have a: "moveCurrentSnapshots exampleConfig doc1Write leftoverDocs
       = Inl (AssertionError NotADirectory, leftoverArchived)" by auto
  have cur': "lookup leftoverDotDocs (folder doc1Write @ [''current_snapshots'']) = Some (Dir ?ds)"
    by code_simp
  have sub': "\<exists>e \<in> set ?ds. isDir (snd e)" by simp
  have wf': "wellFormed leftoverDotDocs" by code_simp
  have v': "snapshotVersion exampleConfig doc1Write leftoverDotDocs = Some ''./0.1''" by code_simp
  have mk': "mkdirPath (folder doc1Write) (''src_snapshots'' # splitPath ''./0.1'') leftoverDotDocs
              = Inr (?new, leftoverDotFolder)"
    by code_simp
  have same: "lookup leftoverDotFolder (folder doc1Write @ [''current_snapshots''])
            = lookup leftoverDotDocs (folder doc1Write @ [''current_snapshots''])"
    by code_simp
  have out: "take (length (folder doc1Write @ [''current_snapshots''])) ?new
           \<noteq> folder doc1Write @ [''current_snapshots'']"
    by (simp add: f)
  have tree: "leftoverDotFolder =
     Dir [(''content'',
           Dir [(''doc1'',
                 Dir [(''messages.json'', File ''ops''),
                      (''current_snapshots'', Dir ?ds),
                      (''src_snapshots'', Dir [(''0.1'', Dir [])])])])]"
    by code_simp
  have none': "\<forall>m c. lookup leftoverDotFolder (?new @ [m]) = Some c \<longrightarrow> \<not> isDir c"
    by (simp add: tree)
  have before': "copyFiles (folder doc1Write @ [''current_snapshots'']) ?new
                  (takeWhile (\<lambda>n. \<not> isDirectory n) (dirents ?ds)) leftoverDotFolder
                = Inr leftoverDotArchived"
    by code_simp
  have arch': "lookup leftoverDotArchived [''content'', ''doc1'', ''src_snapshots''] =
       Some (Dir [(''0.1'', Dir [(''snapshotVersion.json'', File ''./0.1''),
                                 (''snapshot_0'', File ''a'')])])"
    by code_simp
  from subdirectory_fails_assertion [OF cur' sub', of exampleConfig, THEN conjunct2, THEN conjunct2,
      rule_format, OF wf' v' mk' same out] none' before'
  have b: "moveCurrentSnapshots exampleConfig doc1Write leftoverDotDocs
       = Inl (AssertionError NotADirectory, leftoverDotArchived)" by auto
  from cur wf v plain f arch a wf' v' mk' arch' b show ?thesis by simp
qed

text \<open>
  Within \<^verbatim>\<open>processContent\<close>, \<^verbatim>\<open>cleanFailedSnapshots\<close> runs before the migration (line 133):
  a folder \<^verbatim>\<open>FailedSnapshots\<close> that holds only files is removed by then and the run goes
  through, while a directory of another name in \<^verbatim>\<open>current_snapshots\<close> reaches the
  assertion of line 220 and rejects the run.
\<close>

lemma failed_snapshots_cleaned_first:
  "existsSync leftoverDocs [''content'', ''doc1'', ''current_snapshots'', ''FailedSnapshots'']
   \<and> existsSync (files (step rewriteConfig Write False Dispatch
                          (processContent rewriteConfig leftoverDocs)))
         [''content'', ''doc1'', ''current_snapshots'', ''FailedSnapshots''] = False
   \<and> result (run rewriteConfig Write False (replicate 4 Dispatch)
               (processContent rewriteConfig leftoverDocs)) = Fulfilled
   \<and> result (step rewriteConfig Write False Dispatch (processContent rewriteConfig backupDocs))
       = Rejected (AssertionError NotADirectory)
   \<and> lookup (files (step rewriteConfig Write False Dispatch
                      (processContent rewriteConfig backupDocs)))
         [''content'', ''doc1'', ''src_snapshots'']
       = Some (Dir [(''0.1'', Dir [(''snapshotVersion.json'', File ''0.1''),
                                   (''snapshot_0'', File ''a'')])])"
  by code_simp

end
